theory Spec2Isabelle
  imports Main "HOL-Library.Sublist"
begin

section \<open>Strings\<close>

text \<open>
  A JavaScript string is a sequence of UTF-16 code units. A code unit is modelled as an
  integer (0 to 65535 in a real string); the regular expressions of \<^verbatim>\<open>script.js\<close> carry
  no \<^verbatim>\<open>u\<close> flag, so they too work on code units. ASCII text is written with \<open>str\<close>,
  every other code unit by its number.
\<close>

type_synonym jsstring = "int list"

definition str :: "string \<Rightarrow> jsstring" where
  "str cs = map of_char cs"

text \<open>
  \<^verbatim>\<open>\s\<close> and \<^verbatim>\<open>String.prototype.trim\<close> use the same set: WhiteSpace (TAB, VT, FF, SP, NBSP,
  ZWNBSP and the space separators) and LineTerminator (LF, CR, LS, PS).
\<close>

definition isLineTerminator :: "int \<Rightarrow> bool" where
  "isLineTerminator c = (c = 10 \<or> c = 13 \<or> c = 8232 \<or> c = 8233)"

definition isSpace :: "int \<Rightarrow> bool" where
  "isSpace c = (c = 9 \<or> c = 10 \<or> c = 11 \<or> c = 12 \<or> c = 13 \<or> c = 32 \<or> c = 160
     \<or> c = 5760 \<or> (8192 \<le> c \<and> c \<le> 8202) \<or> c = 8232 \<or> c = 8233 \<or> c = 8239
     \<or> c = 8287 \<or> c = 12288 \<or> c = 65279)"

definition trim :: "jsstring \<Rightarrow> jsstring" where
  "trim s = rev (dropWhile isSpace (rev (dropWhile isSpace s)))"

definition substring :: "jsstring \<Rightarrow> nat \<Rightarrow> nat \<Rightarrow> jsstring" where
  "substring s a b = take (b - a) (drop a s)"

fun join :: "jsstring \<Rightarrow> jsstring list \<Rightarrow> jsstring" where
  "join sep [] = []"
| "join sep [x] = x"
| "join sep (x # y # ys) = x @ sep @ join sep (y # ys)"

text \<open>\<^verbatim>\<open>s.split(',')\<close>: the separator is a string of one code unit.\<close>

fun splitOn :: "int \<Rightarrow> jsstring \<Rightarrow> jsstring list" where
  "splitOn c [] = [[]]"
| "splitOn c (x # xs) =
     (if x = c then [] # splitOn c xs
      else (case splitOn c xs of [] \<Rightarrow> [[x]] | p # ps \<Rightarrow> (x # p) # ps))"

text \<open>A number in a template literal: its decimal digits.\<close>

function showNat :: "nat \<Rightarrow> jsstring" where
  "showNat n = (if n < 10 then [48 + int n] else showNat (n div 10) @ [48 + int (n mod 10)])"
  by pat_completeness auto
termination
  by (relation "measure (\<lambda>n. n)") auto

declare showNat.simps [simp del]

section \<open>Regular expressions\<close>

text \<open>
  The syntax of the patterns \<^verbatim>\<open>script.js\<close> uses. \<open>Class\<close> is \<^verbatim>\<open>[...]\<close>, \<open>NClass\<close> is
  \<^verbatim>\<open>[^...]\<close>, \<open>Star\<close>, \<open>Plus\<close> and \<open>Opt\<close> are the greedy \<^verbatim>\<open>*\<close>, \<^verbatim>\<open>+\<close> and \<^verbatim>\<open>?\<close>,
  \<open>LazyStar\<close> is \<^verbatim>\<open>*?\<close>, \<open>Group k\<close> is the k-th capturing group, \<open>Look\<close> is \<^verbatim>\<open>(?=...)\<close>,
  \<open>NegLook\<close> is \<^verbatim>\<open>(?!...)\<close>, \<open>Bol\<close> is \<^verbatim>\<open>^\<close> and \<open>Eol\<close> is \<^verbatim>\<open>$\<close>.
\<close>

datatype atom = Lit int | Range int int | Space | NonSpace

fun atomHas :: "atom \<Rightarrow> int \<Rightarrow> bool" where
  "atomHas (Lit a) c = (c = a)"
| "atomHas (Range a b) c = (a \<le> c \<and> c \<le> b)"
| "atomHas Space c = isSpace c"
| "atomHas NonSpace c = (\<not> isSpace c)"

datatype regex =
    Chr int
  | Dot
  | Class "atom list"
  | NClass "atom list"
  | Empty
  | Seq regex regex
  | Alt regex regex
  | Star regex
  | Plus regex
  | LazyStar regex
  | Opt regex
  | Group nat regex
  | Look regex
  | NegLook regex
  | Bol
  | Eol

text \<open>
  A matcher state is the position reached and the capture ranges. \<open>run ml s r x\<close> lists
  every state in which \<open>r\<close> can end when started in \<open>x\<close> on the text \<open>s\<close>, in the order
  in which a backtracking matcher tries them: the head of the list is the match ECMAScript
  reports, the tail is what it would fall back to. \<open>ml\<close> is the \<^verbatim>\<open>m\<close> flag.

  A quantifier rejects an iteration that consumes nothing (ECMAScript's RepeatMatcher),
  which is \<open>progress\<close>; an iteration that makes progress consumes a code unit, so
  \<open>length s - pos x\<close> iterations are all there can be. None of the quantified
  subpatterns of \<^verbatim>\<open>script.js\<close> holds a capturing group, so no capture is reset between
  iterations.
\<close>

datatype mstate = St (pos: nat) (caps: "nat \<Rightarrow> (nat \<times> nat) option")

definition step :: "(int \<Rightarrow> bool) \<Rightarrow> jsstring \<Rightarrow> mstate \<Rightarrow> mstate list" where
  "step P s x = (if pos x < length s \<and> P (s ! pos x) then [St (Suc (pos x)) (caps x)] else [])"

definition progress :: "mstate \<Rightarrow> mstate list \<Rightarrow> mstate list" where
  "progress x ys = filter (\<lambda>y. pos y \<noteq> pos x) ys"

primrec greedy :: "(mstate \<Rightarrow> mstate list) \<Rightarrow> nat \<Rightarrow> mstate \<Rightarrow> mstate list" where
  "greedy m 0 x = [x]"
| "greedy m (Suc n) x = concat (map (greedy m n) (progress x (m x))) @ [x]"

primrec lazy :: "(mstate \<Rightarrow> mstate list) \<Rightarrow> nat \<Rightarrow> mstate \<Rightarrow> mstate list" where
  "lazy m 0 x = [x]"
| "lazy m (Suc n) x = x # concat (map (lazy m n) (progress x (m x)))"

definition greedyFrom :: "(mstate \<Rightarrow> mstate list) \<Rightarrow> jsstring \<Rightarrow> mstate \<Rightarrow> mstate list" where
  "greedyFrom m s x = greedy m (length s - pos x) x"

definition lazyFrom :: "(mstate \<Rightarrow> mstate list) \<Rightarrow> jsstring \<Rightarrow> mstate \<Rightarrow> mstate list" where
  "lazyFrom m s x = lazy m (length s - pos x) x"

primrec run :: "bool \<Rightarrow> jsstring \<Rightarrow> regex \<Rightarrow> mstate \<Rightarrow> mstate list" where
  "run ml s (Chr a) x = step (\<lambda>c. c = a) s x"
| "run ml s Dot x = step (\<lambda>c. \<not> isLineTerminator c) s x"
| "run ml s (Class as) x = step (\<lambda>c. \<exists>a \<in> set as. atomHas a c) s x"
| "run ml s (NClass as) x = step (\<lambda>c. \<not> (\<exists>a \<in> set as. atomHas a c)) s x"
| "run ml s Empty x = [x]"
| "run ml s (Seq a b) x = concat (map (run ml s b) (run ml s a x))"
| "run ml s (Alt a b) x = run ml s a x @ run ml s b x"
| "run ml s (Star a) x = greedyFrom (run ml s a) s x"
| "run ml s (Plus a) x = concat (map (greedyFrom (run ml s a) s) (run ml s a x))"
| "run ml s (LazyStar a) x = lazyFrom (run ml s a) s x"
| "run ml s (Opt a) x = progress x (run ml s a x) @ [x]"
| "run ml s (Group k a) x =
     map (\<lambda>y. St (pos y) ((caps y)(k \<mapsto> (pos x, pos y)))) (run ml s a x)"
| "run ml s (Look a) x = (case run ml s a x of [] \<Rightarrow> [] | y # _ \<Rightarrow> [St (pos x) (caps y)])"
| "run ml s (NegLook a) x = (case run ml s a x of [] \<Rightarrow> [x] | y # _ \<Rightarrow> [])"
| "run ml s Bol x =
     (if pos x = 0 \<or> (ml \<and> isLineTerminator (s ! (pos x - 1))) then [x] else [])"
| "run ml s Eol x =
     (if pos x = length s \<or> (ml \<and> pos x < length s \<and> isLineTerminator (s ! pos x))
      then [x] else [])"

definition lit :: "string \<Rightarrow> regex" where
  "lit cs = foldr (\<lambda>c r. Seq (Chr (of_char c)) r) cs Empty"

definition seqs :: "regex list \<Rightarrow> regex" where
  "seqs rs = foldr Seq rs Empty"

subsection \<open>The RegExp built-ins\<close>

text \<open>
  A match object: \<open>index\<close>, the end of the match (what \<^verbatim>\<open>lastIndex\<close> of a global regular
  expression becomes), \<open>matched\<close> is \<^verbatim>\<open>m[0]\<close> and \<open>groups m k\<close> is \<^verbatim>\<open>m[k]\<close> for a
  capturing group, \<open>None\<close> when it is \<^verbatim>\<open>undefined\<close>.
\<close>

record jsmatch =
  index :: nat
  lastIndex :: nat
  matched :: jsstring
  groups :: "nat \<Rightarrow> jsstring option"

definition mkMatch :: "jsstring \<Rightarrow> nat \<Rightarrow> mstate \<Rightarrow> jsmatch" where
  "mkMatch s i y =
     \<lparr>index = i, lastIndex = pos y, matched = substring s i (pos y),
      groups = (\<lambda>k. map_option (\<lambda>(a, b). substring s a b) (caps y k))\<rparr>"

text \<open>
  RegExpBuiltinExec from \<^verbatim>\<open>lastIndex = i\<close>: the first position from \<open>i\<close> on, up to the
  length of the text, at which the pattern matches.
\<close>

function regexExec :: "bool \<Rightarrow> regex \<Rightarrow> jsstring \<Rightarrow> nat \<Rightarrow> jsmatch option" where
  "regexExec ml r s i =
     (if length s < i then None
      else (case run ml s r (St i Map.empty) of
              [] \<Rightarrow> regexExec ml r s (Suc i)
            | y # _ \<Rightarrow> Some (mkMatch s i y)))"
  by pat_completeness auto
termination
  by (relation "measure (\<lambda>(ml, r, s, i). Suc (length s) - i)") auto

declare regexExec.simps [simp del]

text \<open>\<^verbatim>\<open>r.test(s)\<close> for a regular expression without the \<^verbatim>\<open>g\<close> flag.\<close>

definition regexTest :: "bool \<Rightarrow> regex \<Rightarrow> jsstring \<Rightarrow> bool" where
  "regexTest ml r s = (regexExec ml r s 0 \<noteq> None)"

text \<open>
  The loop \<^verbatim>\<open>while ((match = re.exec(code)) !== null) { functions.push(body(match)) }\<close> for
  a global regular expression: each \<^verbatim>\<open>exec\<close> resumes at \<^verbatim>\<open>lastIndex\<close>. After an empty
  match \<^verbatim>\<open>lastIndex\<close> does not move and the loop never ends, which is the value \<open>None\<close>.
  The body raises a TypeError when it calls a method of an \<^verbatim>\<open>undefined\<close> group.
\<close>

datatype error = TypeError

partial_function (option) execLoop ::
  "(nat \<Rightarrow> jsmatch option) \<Rightarrow> (jsmatch \<Rightarrow> error + 'a) \<Rightarrow> nat \<Rightarrow> 'a list \<Rightarrow> (error + 'a list) option"
where
  "execLoop ex body i acc =
     (case ex i of
        None \<Rightarrow> Some (Inr acc)
      | Some m \<Rightarrow>
          (case body m of
             Inl e \<Rightarrow> Some (Inl e)
           | Inr f \<Rightarrow> execLoop ex body (lastIndex m) (acc @ [f])))"

declare execLoop.simps [code]

definition thenDo :: "(error + 'a) option \<Rightarrow> ('a \<Rightarrow> (error + 'b) option) \<Rightarrow> (error + 'b) option" where
  "thenDo r k = (case r of None \<Rightarrow> None | Some (Inl e) \<Rightarrow> Some (Inl e) | Some (Inr v) \<Rightarrow> k v)"

subsection \<open>The matcher only moves forward\<close>

lemma step_mono: "y \<in> set (step P s x) \<Longrightarrow> pos y = Suc (pos x) \<and> caps y = caps x"
  unfolding step_def by (cases "pos x < length s \<and> P (s ! pos x)") auto

lemma in_progress: "y \<in> set (progress x ys) \<longleftrightarrow> y \<in> set ys \<and> pos y \<noteq> pos x"
  by (simp add: progress_def)

lemma in_greedy_Suc:
  "y \<in> set (greedy m (Suc n) x) \<longleftrightarrow>
     y = x \<or> (\<exists>z. z \<in> set (m x) \<and> pos z \<noteq> pos x \<and> y \<in> set (greedy m n z))"
  by (auto simp: in_progress)

lemma in_lazy_Suc:
  "y \<in> set (lazy m (Suc n) x) \<longleftrightarrow>
     y = x \<or> (\<exists>z. z \<in> set (m x) \<and> pos z \<noteq> pos x \<and> y \<in> set (lazy m n z))"
  by (auto simp: in_progress)

lemma greedy_mono:
  assumes "\<And>x y. y \<in> set (m x) \<Longrightarrow> pos x \<le> pos y"
  shows "y \<in> set (greedy m n x) \<Longrightarrow> pos x \<le> pos y"
proof (induction n arbitrary: x)
  case 0
  then show ?case by simp
next
  case (Suc n)
  from Suc.prems consider "y = x"
    | z where "z \<in> set (m x)" "y \<in> set (greedy m n z)"
    unfolding in_greedy_Suc by blast
  then show ?case
  proof cases
    case 1
    then show ?thesis by simp
  next
    case 2
    from assms [OF 2(1)] Suc.IH [OF 2(2)] show ?thesis by (rule le_trans)
  qed
qed

lemma lazy_mono:
  assumes "\<And>x y. y \<in> set (m x) \<Longrightarrow> pos x \<le> pos y"
  shows "y \<in> set (lazy m n x) \<Longrightarrow> pos x \<le> pos y"
proof (induction n arbitrary: x)
  case 0
  then show ?case by simp
next
  case (Suc n)
  from Suc.prems consider "y = x"
    | z where "z \<in> set (m x)" "y \<in> set (lazy m n z)"
    unfolding in_lazy_Suc by blast
  then show ?case
  proof cases
    case 1
    then show ?thesis by simp
  next
    case 2
    from assms [OF 2(1)] Suc.IH [OF 2(2)] show ?thesis by (rule le_trans)
  qed
qed

lemma in_run_Seq:
  "y \<in> set (run ml s (Seq a b) x) \<longleftrightarrow> (\<exists>z. z \<in> set (run ml s a x) \<and> y \<in> set (run ml s b z))"
  by simp blast

lemma run_mono: "y \<in> set (run ml s r x) \<Longrightarrow> pos x \<le> pos y"
proof (induction r arbitrary: x y)
  case (Chr a)
  then show ?case using step_mono [of y _ s x] by simp
next
  case Dot
  then show ?case using step_mono [of y _ s x] by simp
next
  case (Class as)
  then show ?case using step_mono [of y _ s x] by simp
next
  case (NClass as)
  then show ?case using step_mono [of y _ s x] by simp
next
  case Empty
  then show ?case by simp
next
  case (Seq a b)
  from Seq.prems obtain z where "z \<in> set (run ml s a x)" "y \<in> set (run ml s b z)"
    unfolding in_run_Seq by blast
  then show ?case using Seq.IH by (meson le_trans)
next
  case (Alt a b)
  then show ?case by auto
next
  case (Star a)
  then show ?case
    using greedy_mono [of "run ml s a"] by (simp add: greedyFrom_def)
next
  case (Plus a)
  from Plus.prems obtain z where z: "z \<in> set (run ml s a x)" "y \<in> set (greedy (run ml s a) (length s - pos z) z)"
    by (auto simp: greedyFrom_def)
  have "pos z \<le> pos y"
    using greedy_mono [of "run ml s a", OF _ z(2)] Plus.IH by blast
  then show ?case using Plus.IH [OF z(1)] by simp
next
  case (LazyStar a)
  then show ?case
    using lazy_mono [of "run ml s a"] by (simp add: lazyFrom_def)
next
  case (Opt a)
  then show ?case by (auto simp: in_progress)
next
  case (Group k a)
  then show ?case by auto
next
  case (Look a)
  then show ?case by (cases "run ml s a x") auto
next
  case (NegLook a)
  then show ?case by (cases "run ml s a x") auto
next
  case Bol
  then show ?case by (simp split: if_splits)
next
  case Eol
  then show ?case by (simp split: if_splits)
qed

lemma regexExec_bounds:
  "regexExec ml r s i = Some m \<Longrightarrow> i \<le> index m \<and> index m \<le> lastIndex m \<and> index m \<le> length s"
proof (induction ml r s i rule: regexExec.induct)
  case (1 ml r s i)
  show ?case
  proof (cases "run ml s r (St i Map.empty)")
    case Nil
    with "1.prems" "1.IH" show ?thesis
      by (subst (asm) regexExec.simps) (auto split: if_splits)
  next
    case (Cons y ys)
    then have "y \<in> set (run ml s r (St i Map.empty))" by simp
    then have "i \<le> pos y" using run_mono by fastforce
    with "1.prems" Cons show ?thesis
      by (subst (asm) regexExec.simps) (auto simp: mkMatch_def split: if_splits)
  qed
qed

subsection \<open>matchAll and split\<close>

text \<open>
  \<^verbatim>\<open>[...s.matchAll(r)]\<close> for a global regular expression: the matches of repeated
  \<^verbatim>\<open>exec\<close> calls; after an empty match \<^verbatim>\<open>lastIndex\<close> is advanced by one.
\<close>

function matchAllFrom :: "bool \<Rightarrow> regex \<Rightarrow> jsstring \<Rightarrow> nat \<Rightarrow> jsmatch list" where
  "matchAllFrom ml r s i =
     (case regexExec ml r s i of
        None \<Rightarrow> []
      | Some m \<Rightarrow>
          m # matchAllFrom ml r s (if matched m = [] then Suc (lastIndex m) else lastIndex m))"
  by pat_completeness auto
termination
proof (relation "measure (\<lambda>(ml, r, s, i). Suc (length s) - i)")
  show "wf (measure (\<lambda>(ml, r, s, i). Suc (length s) - i))" by simp
next
  fix ml r s i m
  assume m: "regexExec ml r s i = Some m"
  from regexExec_bounds [OF m]
  have b: "i \<le> index m" "index m \<le> lastIndex m" "index m \<le> length s" by simp_all
  show "((ml, r, s, if matched m = [] then Suc (lastIndex m) else lastIndex m), (ml, r, s, i))
          \<in> measure (\<lambda>(ml, r, s, i). Suc (length s) - i)"
  proof (cases "matched m = []")
    case True
    with b show ?thesis by simp
  next
    case False
    have "matched m = substring s (index m) (lastIndex m)"
      using m
    proof (induction ml r s i rule: regexExec.induct)
      case (1 ml r s i)
      from "1.prems" show ?case
        by (subst (asm) regexExec.simps)
          (auto simp: mkMatch_def "1.IH" split: if_splits list.splits)
    qed
    with False have "index m < lastIndex m"
      by (auto simp: substring_def)
    with b False show ?thesis by simp
  qed
qed

declare matchAllFrom.simps [simp del]

definition matchAll :: "bool \<Rightarrow> regex \<Rightarrow> jsstring \<Rightarrow> jsmatch list" where
  "matchAll ml r s = matchAllFrom ml r s 0"

text \<open>
  \<^verbatim>\<open>s.split(r)\<close>: \<open>p\<close> is where the current piece starts, \<open>q\<close> the position at which
  the separator is tried next. A separator that ends where the piece starts is skipped.
  The separators of \<^verbatim>\<open>script.js\<close> have no capturing group, so only the pieces are
  collected.
\<close>

function splitLoop :: "bool \<Rightarrow> regex \<Rightarrow> jsstring \<Rightarrow> nat \<Rightarrow> nat \<Rightarrow> jsstring list \<Rightarrow> jsstring list" where
  "splitLoop ml r s p q acc =
     (if length s \<le> q then acc @ [substring s p (length s)]
      else (case run ml s r (St q Map.empty) of
              [] \<Rightarrow> splitLoop ml r s p (Suc q) acc
            | y # _ \<Rightarrow>
                if pos y = p then splitLoop ml r s p (Suc q) acc
                else splitLoop ml r s (pos y) (pos y) (acc @ [substring s p q])))"
  by pat_completeness auto
termination
proof (relation "measures [\<lambda>(ml, r, s, p, q, acc). length s - q, \<lambda>(ml, r, s, p, q, acc). if p = q then 0 else 1]")
  fix ml r s p q acc y ys
  assume a: "\<not> length s \<le> q" "run ml s r (St q Map.empty) = y # ys" "pos y \<noteq> p"
  have "y \<in> set (run ml s r (St q Map.empty))" using a(2) by simp
  from run_mono [OF this] have "q \<le> pos y" by simp
  with a show "((ml, r, s, pos y, pos y, acc @ [substring s p q]), (ml, r, s, p, q, acc))
          \<in> measures [\<lambda>(ml, r, s, p, q, acc). length s - q, \<lambda>(ml, r, s, p, q, acc). if p = q then 0 else 1]"
    by auto
qed auto

declare splitLoop.simps [simp del]

definition jsSplit :: "bool \<Rightarrow> regex \<Rightarrow> jsstring \<Rightarrow> jsstring list" where
  "jsSplit ml r s =
     (if s = [] then (case run ml s r (St 0 Map.empty) of [] \<Rightarrow> [s] | y # _ \<Rightarrow> [])
      else splitLoop ml r s 0 0 [])"

section \<open>The patterns of script.js\<close>

definition ws :: regex where
  "ws = Class [Space]"

definition ident :: regex where
  "ident = Seq (Class [Range 65 90, Range 97 122, Lit 95])
               (Star (Class [Range 65 90, Range 97 122, Range 48 57, Lit 95]))"

definition notParen :: regex where
  "notParen = Star (NClass [Lit 41])"

text \<open>\<^verbatim>\<open>/def\s+([A-Za-z_][A-Za-z0-9_]*)\s*\(([^)]*)\)/g\<close> (generateExplanation)\<close>

definition pyFuncRegex :: regex where
  "pyFuncRegex =
     seqs [lit ''def'', Plus ws, Group 1 ident, Star ws, Chr 40, Group 2 notParen, Chr 41]"

text \<open>\<^verbatim>\<open>/function\s+([A-Za-z_][A-Za-z0-9_]*)\s*\(([^)]*)\)/g\<close> (generateExplanation)\<close>

definition jsFuncRegex :: regex where
  "jsFuncRegex =
     seqs [lit ''function'', Plus ws, Group 1 ident, Star ws, Chr 40, Group 2 notParen, Chr 41]"

text \<open>\<^verbatim>\<open>/([A-Za-z_][A-Za-z0-9_]*)\s*=\s*\(([^)]*)\)\s*=>/g\<close> (generateExplanation)\<close>

definition arrowFuncRegex :: regex where
  "arrowFuncRegex =
     seqs [Group 1 ident, Star ws, Chr 61, Star ws, Chr 40, Group 2 notParen, Chr 41, Star ws,
           lit ''=>'']"

text \<open>The same three patterns, written again in generateDocumentation.\<close>

definition pyRegex :: regex where
  "pyRegex =
     seqs [lit ''def'', Plus ws, Group 1 ident, Star ws, Chr 40, Group 2 notParen, Chr 41]"

definition jsRegex :: regex where
  "jsRegex =
     seqs [lit ''function'', Plus ws, Group 1 ident, Star ws, Chr 40, Group 2 notParen, Chr 41]"

definition arrowRegex :: regex where
  "arrowRegex =
     seqs [Group 1 ident, Star ws, Chr 61, Star ws, Chr 40, Group 2 notParen, Chr 41, Star ws,
           lit ''=>'']"

text \<open>
  \<^verbatim>\<open>/def\s+[A-Za-z_][A-Za-z0-9_]*\s*\([^)]*\)\s*:\s*(?:\n\s*)+(?!\"\"\")/g\<close>
  (generateSuggestion; 34 is the double quote)
\<close>

definition docstringRegex :: regex where
  "docstringRegex =
     seqs [lit ''def'', Plus ws, ident, Star ws, Chr 40, notParen, Chr 41, Star ws, Chr 58,
           Star ws, Plus (Seq (Chr 10) (Star ws)), NegLook (seqs [Chr 34, Chr 34, Chr 34])]"

text \<open>\<^verbatim>\<open>/^[ \t]*([A-Za-z_][A-Za-z0-9_]*)\s*=.+$/gm\<close> (generateSuggestion)\<close>

definition assignRegex :: regex where
  "assignRegex =
     seqs [Bol, Star (Class [Lit 32, Lit 9]), Group 1 ident, Star ws, Chr 61, Plus Dot, Eol]"

text \<open>\<^verbatim>\<open>/(const|let|var)\s+/\<close> (generateSuggestion)\<close>

definition declRegex :: regex where
  "declRegex = seqs [Group 1 (Alt (lit ''const'') (Alt (lit ''let'') (lit ''var''))), Plus ws]"

text \<open>
  \<^verbatim>\<open>/def\s+[A-Za-z_][A-Za-z0-9_]*\s*\([^)]*\):\s*([\s\S]*?)\n(?=def |$)/g\<close>
  (generateSuggestion)
\<close>

definition longFuncRegex :: regex where
  "longFuncRegex =
     seqs [lit ''def'', Plus ws, ident, Star ws, Chr 40, notParen, Chr 41, Chr 58, Star ws,
           Group 1 (LazyStar (Class [Space, NonSpace])), Chr 10,
           Look (Alt (lit ''def '') Eol)]"

text \<open>\<^verbatim>\<open>/\r?\n/\<close> (generateExplanation, generateSuggestion)\<close>

definition newlineRegex :: regex where
  "newlineRegex = seqs [Opt (Chr 13), Chr 10]"

section \<open>generateExplanation\<close>

datatype language = Python | JavaScript

fun languageName :: "language \<Rightarrow> jsstring" where
  "languageName Python = str ''Python''"
| "languageName JavaScript = str ''JavaScript''"

text \<open>
  The objects pushed to \<^verbatim>\<open>functions\<close>: \<^verbatim>\<open>{ name, params }\<close> in generateDocumentation,
  and with a \<^verbatim>\<open>language\<close> in generateExplanation. \<^verbatim>\<open>name\<close> is \<^verbatim>\<open>match[1]\<close> as it is,
  \<open>None\<close> when \<^verbatim>\<open>undefined\<close>; \<^verbatim>\<open>match[2].trim()\<close> raises a TypeError on \<^verbatim>\<open>undefined\<close>.
\<close>

record docfunc =
  name :: "jsstring option"
  params :: jsstring

record func = docfunc +
  language :: language

definition pushFunc :: "language \<Rightarrow> jsmatch \<Rightarrow> error + func" where
  "pushFunc lang m =
     (case groups m 2 of
        None \<Rightarrow> Inl TypeError
      | Some p \<Rightarrow> Inr \<lparr>name = groups m 1, params = trim p, language = lang\<rparr>)"

text \<open>The three loops of generateExplanation push to the same array, one after the other.\<close>

definition explFunctions :: "jsstring \<Rightarrow> (error + func list) option" where
  "explFunctions code =
     thenDo (execLoop (regexExec False pyFuncRegex code) (pushFunc Python) 0 []) (\<lambda>functions.
     thenDo (execLoop (regexExec False jsFuncRegex code) (pushFunc JavaScript) 0 functions) (\<lambda>functions.
     execLoop (regexExec False arrowFuncRegex code) (pushFunc JavaScript) 0 functions))"

definition toText :: "jsstring option \<Rightarrow> jsstring" where
  "toText v = (case v of None \<Rightarrow> str ''undefined'' | Some s \<Rightarrow> s)"

definition describe :: "func \<Rightarrow> jsstring" where
  "describe f =
     (let paramsText = (if params f \<noteq> [] then params f else str ''sem par'' @ [226] @ str ''metros'')
      in languageName (language f) @ str '': fun'' @ [231, 227] @ str ''o '' @ toText (name f)
         @ str ''('' @ paramsText @ str '')'')"

definition explain :: "jsstring \<Rightarrow> func list \<Rightarrow> jsstring" where
  "explain code functions =
     (if length functions = 0 then
        (let lines = filter (\<lambda>l. trim l \<noteq> []) (jsSplit False newlineRegex code)
         in str ''O c'' @ [243] @ str ''digo possui '' @ showNat (length lines)
            @ str '' linha(s). Considere adicionar fun'' @ [231, 245] @ str ''es'' @ [10]
            @ str ''para organizar melhor a l'' @ [243] @ str ''gica e facilitar a manuten''
            @ [231, 227] @ str ''o.'')
      else
        (let parts = map describe functions
         in str ''Foram identificada(s) '' @ showNat (length functions) @ str '' fun''
            @ [231, 227] @ str ''o('' @ [245] @ str ''es): '' @ join (str ''; '') parts @ str ''.''))"

definition generateExplanation :: "jsstring \<Rightarrow> (error + jsstring) option" where
  "generateExplanation code =
     thenDo (explFunctions code) (\<lambda>functions. Some (Inr (explain code functions)))"

section \<open>generateSuggestion\<close>

definition docstringAdvice :: jsstring where
  "docstringAdvice =
     str ''Adicione docstrings '' @ [224] @ str ''s suas fun'' @ [231, 245]
     @ str ''es em Python para explicar o prop'' @ [243] @ str ''sito e os par'' @ [226]
     @ str ''metros.''"

definition declarationAdvice :: jsstring where
  "declarationAdvice =
     str ''No JavaScript, declare vari'' @ [225]
     @ str ''veis usando const ou let para evitar problemas de escopo.''"

definition longFunctionAdvice :: jsstring where
  "longFunctionAdvice =
     str ''Considere dividir fun'' @ [231, 245] @ str ''es muito longas em fun'' @ [231, 245]
     @ str ''es menores para melhorar a legibilidade.''"

definition namingAdvice :: jsstring where
  "namingAdvice =
     str ''Use nomes de vari'' @ [225] @ str ''veis e fun'' @ [231, 245]
     @ str ''es descritivos e adicione coment'' @ [225] @ str ''rios quando necess'' @ [225]
     @ str ''rio.''"

definition errorHandlingAdvice :: jsstring where
  "errorHandlingAdvice =
     str ''Implemente tratamento de erros para tornar o c'' @ [243] @ str ''digo mais robusto.''"

definition pyFuncs :: "jsstring \<Rightarrow> jsmatch list" where
  "pyFuncs code = matchAll False docstringRegex code"

definition undeclaredJS :: "jsstring \<Rightarrow> jsmatch list" where
  "undeclaredJS code =
     filter (\<lambda>m. let line = matched m in \<not> regexTest False declRegex line)
       (matchAll True assignRegex code)"

text \<open>A \<^verbatim>\<open>filter\<close> whose callback may raise: \<^verbatim>\<open>m[1].split\<close> on an \<^verbatim>\<open>undefined\<close> group.\<close>

fun filterE :: "('a \<Rightarrow> error + bool) \<Rightarrow> 'a list \<Rightarrow> error + 'a list" where
  "filterE f [] = Inr []"
| "filterE f (x # xs) =
     (case f x of
        Inl e \<Rightarrow> Inl e
      | Inr b \<Rightarrow> (case filterE f xs of Inl e \<Rightarrow> Inl e | Inr ys \<Rightarrow> Inr (if b then x # ys else ys)))"

definition isLong :: "jsmatch \<Rightarrow> error + bool" where
  "isLong m =
     (case groups m 1 of
        None \<Rightarrow> Inl TypeError
      | Some body \<Rightarrow> Inr (20 < length (jsSplit False newlineRegex body)))"

definition longFuncs :: "jsstring \<Rightarrow> error + jsmatch list" where
  "longFuncs code = filterE isLong (matchAll False longFuncRegex code)"

definition suggestions :: "jsstring \<Rightarrow> error + jsstring list" where
  "suggestions code =
     (let s1 = (if length (pyFuncs code) > 0 then [docstringAdvice] else []);
          s2 = s1 @ (if length (undeclaredJS code) > 0 then [declarationAdvice] else [])
      in case longFuncs code of
           Inl e \<Rightarrow> Inl e
         | Inr long \<Rightarrow>
             (let s3 = s2 @ (if length long > 0 then [longFunctionAdvice] else [])
              in Inr (if length s3 = 0 then s3 @ [namingAdvice, errorHandlingAdvice] else s3)))"

definition generateSuggestion :: "jsstring \<Rightarrow> error + jsstring" where
  "generateSuggestion code =
     (case suggestions code of Inl e \<Rightarrow> Inl e | Inr ss \<Rightarrow> Inr (join (str '' '') ss))"

section \<open>generateDocumentation\<close>

definition pushDoc :: "jsmatch \<Rightarrow> error + docfunc" where
  "pushDoc m =
     (case groups m 2 of
        None \<Rightarrow> Inl TypeError
      | Some p \<Rightarrow> Inr \<lparr>name = groups m 1, params = trim p\<rparr>)"

definition docFunctions :: "jsstring \<Rightarrow> (error + docfunc list) option" where
  "docFunctions code =
     thenDo (execLoop (regexExec False pyRegex code) pushDoc 0 []) (\<lambda>functions.
     thenDo (execLoop (regexExec False jsRegex code) pushDoc 0 functions) (\<lambda>functions.
     execLoop (regexExec False arrowRegex code) pushDoc 0 functions))"

definition paramBullet :: "jsstring \<Rightarrow> jsstring" where
  "paramBullet param =
     str ''- '' @ [96] @ param @ [96] @ str '': descri'' @ [231, 227] @ str ''o do par'' @ [226]
     @ str ''metro.''"

text \<open>The lines one function adds to \<^verbatim>\<open>docLines\<close> (the body of the \<^verbatim>\<open>forEach\<close>).\<close>

definition docStub :: "docfunc \<Rightarrow> jsstring list" where
  "docStub fn =
     (let ps = (if params fn \<noteq> [] then map trim (splitOn 44 (params fn)) else [])
      in [str ''### Fun'' @ [231, 227] @ str ''o '' @ [96] @ toText (name fn) @ str ''()'' @ [96],
          str ''**Descri'' @ [231, 227] @ str ''o:** descreva aqui o que a fun'' @ [231, 227]
            @ str ''o faz.'']
         @ (if length ps > 0 \<and> \<not> (length ps = 1 \<and> hd ps = [])
            then [str ''**Par'' @ [226] @ str ''metros:**''] @ map paramBullet ps
            else [str ''**Par'' @ [226] @ str ''metros:** Esta fun'' @ [231, 227] @ str ''o n''
                    @ [227] @ str ''o recebe par'' @ [226] @ str ''metros.''])
         @ [str ''**Retorno:** descreva aqui o valor retornado pela fun'' @ [231, 227] @ str ''o.'',
            []])"

definition docLines :: "docfunc list \<Rightarrow> jsstring list" where
  "docLines functions =
     (if length functions = 0 then
        [str ''# Documenta'' @ [231, 227] @ str ''o do C'' @ [243] @ str ''digo'',
         str ''Este trecho de c'' @ [243] @ str ''digo n'' @ [227] @ str ''o cont'' @ [233]
           @ str ''m defini'' @ [231, 245] @ str ''es de fun'' @ [231, 245] @ str ''es.'',
         str ''Use se'' @ [231, 245] @ str ''es e coment'' @ [225]
           @ str ''rios para documentar a l'' @ [243] @ str ''gica.'']
      else concat (map docStub functions))"

definition generateDocumentation :: "jsstring \<Rightarrow> (error + jsstring) option" where
  "generateDocumentation code =
     thenDo (docFunctions code) (\<lambda>functions. Some (Inr (join [10] (docLines functions))))"

section \<open>analyzeCode\<close>

text \<open>
  The page as analyzeCode reads and writes it: the value of the textarea, the text of the
  four output elements, whether the output section is hidden, and the alerts shown.
\<close>

record page =
  codeInput :: jsstring
  originalCode :: jsstring
  explanation :: jsstring
  suggestion :: jsstring
  documentation :: jsstring
  outputHidden :: bool
  alerts :: "jsstring list"

definition emptyInputAlert :: jsstring where
  "emptyInputAlert = str ''Por favor, insira um trecho de c'' @ [243] @ str ''digo para analisar.''"

definition analyzeCode :: "page \<Rightarrow> (error + page) option" where
  "analyzeCode p =
     (let code = codeInput p
      in if trim code = [] then Some (Inr (p\<lparr>alerts := alerts p @ [emptyInputAlert]\<rparr>))
         else
           thenDo (generateExplanation code) (\<lambda>e.
           thenDo (Some (generateSuggestion code)) (\<lambda>sg.
           thenDo (generateDocumentation code) (\<lambda>d.
             Some (Inr (p\<lparr>originalCode := code, explanation := e, suggestion := sg,
                           documentation := d, outputHidden := False\<rparr>))))))"

section \<open>Notions for the statements and the proofs\<close>

subsection \<open>Notions of the specification\<close>

text \<open>Matches that do not overlap and come in the order of the text.\<close>

definition leftToRight :: "jsmatch list \<Rightarrow> bool" where
  "leftToRight ms = sorted_wrt (\<lambda>a b. lastIndex a \<le> index b) ms"

text \<open>
  What \<^verbatim>\<open>/(const|let|var)\s+/.test(line)\<close> decides, said without the matcher: one of the
  three keywords occurs in the line with a whitespace code unit right after it.
\<close>

definition keywordThenSpace :: "jsstring \<Rightarrow> bool" where
  "keywordThenSpace line =
     (\<exists>kw \<in> {str ''const'', str ''let'', str ''var''}. \<exists>c. isSpace c \<and> sublist (kw @ [c]) line)"

text \<open>
  The check as the specification words it: a line is exempt when one of the three keywords
  occurs anywhere in it.
\<close>

definition containsKeyword :: "jsstring \<Rightarrow> bool" where
  "containsKeyword line = (\<exists>kw \<in> {str ''const'', str ''let'', str ''var''}. sublist kw line)"

text \<open>
  The line that starts at position \<open>p\<close> of a text, for the \<^verbatim>\<open>m\<close> flag of a regular
  expression: a line starts at the beginning of the text and right after every line
  terminator, and runs up to the next line terminator or the end of the text.
\<close>

definition lineStart :: "jsstring \<Rightarrow> nat \<Rightarrow> bool" where
  "lineStart s p = (p \<le> length s \<and> (p = 0 \<or> isLineTerminator (s ! (p - 1))))"

definition lineAt :: "jsstring \<Rightarrow> nat \<Rightarrow> jsstring" where
  "lineAt s p = takeWhile (\<lambda>c. \<not> isLineTerminator c) (drop p s)"

text \<open>
  A line of the shape \<^verbatim>\<open>identifier = ...\<close>, said without the matcher: after the leading code
  units that \<open>skip\<close> accepts comes an identifier (a letter or underscore, then letters,
  digits and underscores), then any whitespace, then \<^verbatim>\<open>=\<close>, then at least one more code
  unit. \<open>assignmentShape\<close> skips blanks and tabs, \<open>assignmentAfterWhitespace\<close> skips every
  whitespace code unit, which is how the specification words it.
\<close>

definition isBlank :: "int \<Rightarrow> bool" where
  "isBlank c = (c = 32 \<or> c = 9)"

definition isIdentStart :: "int \<Rightarrow> bool" where
  "isIdentStart c = ((65 \<le> c \<and> c \<le> 90) \<or> (97 \<le> c \<and> c \<le> 122) \<or> c = 95)"

definition isIdentPart :: "int \<Rightarrow> bool" where
  "isIdentPart c = (isIdentStart c \<or> (48 \<le> c \<and> c \<le> 57))"

definition assignmentAfter :: "(int \<Rightarrow> bool) \<Rightarrow> jsstring \<Rightarrow> bool" where
  "assignmentAfter skip line =
     (case dropWhile skip line of
        [] \<Rightarrow> False
      | c # cs \<Rightarrow>
          isIdentStart c \<and>
          (case dropWhile isSpace (dropWhile isIdentPart cs) of
             [] \<Rightarrow> False
           | d # rest \<Rightarrow> d = 61 \<and> rest \<noteq> []))"

definition assignmentShape :: "jsstring \<Rightarrow> bool" where
  "assignmentShape line = assignmentAfter isBlank line"

definition assignmentAfterWhitespace :: "jsstring \<Rightarrow> bool" where
  "assignmentAfterWhitespace line = assignmentAfter isSpace line"

text \<open>
  The line at \<open>p\<close> is flagged: it has the shape of an assignment and holds none of the three
  keywords with a whitespace code unit right after it.
\<close>

definition flaggedLine :: "jsstring \<Rightarrow> nat \<Rightarrow> bool" where
  "flaggedLine code p =
     (lineStart code p \<and> assignmentShape (lineAt code p) \<and> \<not> keywordThenSpace (lineAt code p))"

text \<open>
  An assignment broken across lines: at the start of a line, after blanks and tabs, stands
  an identifier, and the whitespace between the identifier and the \<^verbatim>\<open>=\<close> that follows it
  holds a line terminator. \<open>brokenAssignment\<close> says it of the text from the start of the
  line on, \<open>assignmentAcrossLines\<close> of some line of a text.
\<close>

definition brokenAssignment :: "jsstring \<Rightarrow> bool" where
  "brokenAssignment t =
     (case dropWhile isBlank t of
        [] \<Rightarrow> False
      | c # cs \<Rightarrow>
          isIdentStart c \<and>
          (let r = dropWhile isIdentPart cs
           in (\<exists>x \<in> set (takeWhile isSpace r). isLineTerminator x)
              \<and> (case dropWhile isSpace r of [] \<Rightarrow> False | d # rest \<Rightarrow> d = 61)))"

definition assignmentAcrossLines :: "jsstring \<Rightarrow> bool" where
  "assignmentAcrossLines s =
     (\<exists>p \<in> set [0 ..< Suc (length s)]. lineStart s p \<and> brokenAssignment (drop p s))"

text \<open>
  The lines of a text as the specification words them: the text is cut at every line feed,
  and a carriage return right before a line feed belongs to the cut. \<open>prepend\<close> puts a
  code unit in front of the first line.
\<close>

definition prepend :: "int \<Rightarrow> jsstring list \<Rightarrow> jsstring list" where
  "prepend c ls = (case ls of [] \<Rightarrow> [[c]] | l # ls' \<Rightarrow> (c # l) # ls')"

fun splitLines :: "jsstring \<Rightarrow> jsstring list" where
  "splitLines [] = [[]]"
| "splitLines [c] = (if c = 10 then [[], []] else [[c]])"
| "splitLines (c # d # cs) =
     (if c = 10 then [] # splitLines (d # cs)
      else if c = 13 \<and> d = 10 then [] # splitLines cs
      else prepend c (splitLines (d # cs)))"

subsection \<open>Notions of the proofs\<close>

text \<open>
  What the loop has pushed when \<^verbatim>\<open>exec\<close> returned the matches \<open>ms\<close> one by one.
\<close>

fun pushAll :: "(jsmatch \<Rightarrow> error + 'a) \<Rightarrow> 'a list \<Rightarrow> jsmatch list \<Rightarrow> error + 'a list" where
  "pushAll body acc [] = Inr acc"
| "pushAll body acc (m # ms) =
     (case body m of Inl e \<Rightarrow> Inl e | Inr f \<Rightarrow> pushAll body (acc @ [f]) ms)"

text \<open>A pattern that never matches the empty string.\<close>

definition consuming :: "regex \<Rightarrow> bool" where
  "consuming r = (\<forall>ml s x y. y \<in> set (run ml s r x) \<longrightarrow> pos x < pos y)"

text \<open>A matcher that only moves forward and stays within \<open>N\<close> code units.\<close>

definition forward :: "(mstate \<Rightarrow> mstate list) \<Rightarrow> nat \<Rightarrow> bool" where
  "forward m N = (\<forall>x y. y \<in> set (m x) \<longrightarrow> pos x \<le> pos y \<and> (pos x \<le> N \<longrightarrow> pos y \<le> N))"

text \<open>The capturing groups of a pattern.\<close>

primrec groupsOf :: "regex \<Rightarrow> nat set" where
  "groupsOf (Chr a) = {}"
| "groupsOf Dot = {}"
| "groupsOf (Class as) = {}"
| "groupsOf (NClass as) = {}"
| "groupsOf Empty = {}"
| "groupsOf (Seq a b) = groupsOf a \<union> groupsOf b"
| "groupsOf (Alt a b) = groupsOf a \<union> groupsOf b"
| "groupsOf (Star a) = groupsOf a"
| "groupsOf (Plus a) = groupsOf a"
| "groupsOf (LazyStar a) = groupsOf a"
| "groupsOf (Opt a) = groupsOf a"
| "groupsOf (Group k a) = insert k (groupsOf a)"
| "groupsOf (Look a) = groupsOf a"
| "groupsOf (NegLook a) = groupsOf a"
| "groupsOf Bol = {}"
| "groupsOf Eol = {}"

text \<open>A syntactic check that a pattern cannot match the empty string.\<close>

primrec consumes :: "regex \<Rightarrow> bool" where
  "consumes (Chr a) = True"
| "consumes Dot = True"
| "consumes (Class as) = True"
| "consumes (NClass as) = True"
| "consumes Empty = False"
| "consumes (Seq a b) = (consumes a \<or> consumes b)"
| "consumes (Alt a b) = (consumes a \<and> consumes b)"
| "consumes (Star a) = False"
| "consumes (Plus a) = consumes a"
| "consumes (LazyStar a) = False"
| "consumes (Opt a) = False"
| "consumes (Group k a) = consumes a"
| "consumes (Look a) = False"
| "consumes (NegLook a) = False"
| "consumes Bol = False"
| "consumes Eol = False"

text \<open>A syntactic check that group \<open>k\<close> is set in every match of a pattern.\<close>

primrec definesGroup :: "regex \<Rightarrow> nat \<Rightarrow> bool" where
  "definesGroup (Chr a) k = False"
| "definesGroup Dot k = False"
| "definesGroup (Class as) k = False"
| "definesGroup (NClass as) k = False"
| "definesGroup Empty k = False"
| "definesGroup (Seq a b) k = (definesGroup b k \<or> (definesGroup a k \<and> k \<notin> groupsOf b))"
| "definesGroup (Alt a b) k = (definesGroup a k \<and> definesGroup b k)"
| "definesGroup (Star a) k = False"
| "definesGroup (Plus a) k = False"
| "definesGroup (LazyStar a) k = False"
| "definesGroup (Opt a) k = False"
| "definesGroup (Group j a) k = (j = k \<or> definesGroup a k)"
| "definesGroup (Look a) k = False"
| "definesGroup (NegLook a) k = False"
| "definesGroup Bol k = False"
| "definesGroup Eol k = False"

text \<open>A pattern without its capturing groups.\<close>

primrec erase :: "regex \<Rightarrow> regex" where
  "erase (Chr a) = Chr a"
| "erase Dot = Dot"
| "erase (Class as) = Class as"
| "erase (NClass as) = NClass as"
| "erase Empty = Empty"
| "erase (Seq a b) = Seq (erase a) (erase b)"
| "erase (Alt a b) = Alt (erase a) (erase b)"
| "erase (Star a) = Star (erase a)"
| "erase (Plus a) = Plus (erase a)"
| "erase (LazyStar a) = LazyStar (erase a)"
| "erase (Opt a) = Opt (erase a)"
| "erase (Group k a) = erase a"
| "erase (Look a) = Look (erase a)"
| "erase (NegLook a) = NegLook (erase a)"
| "erase Bol = Bol"
| "erase Eol = Eol"

text \<open>Two lists of matcher states that agree on the positions.\<close>

definition samePos :: "mstate list \<Rightarrow> mstate list \<Rightarrow> bool" where
  "samePos xs ys = list_all2 (\<lambda>a b. pos a = pos b) xs ys"

text \<open>A piece of a line put in front of the lines that follow it.\<close>

definition glue :: "jsstring \<Rightarrow> jsstring list \<Rightarrow> jsstring list" where
  "glue w ls = (case ls of [] \<Rightarrow> [w] | l # ls' \<Rightarrow> (w @ l) # ls')"

text \<open>
  What a pattern eats. \<open>restIs s x t\<close>: the text from the position of \<open>x\<close> on is \<open>t\<close>;
  \<open>advance x u\<close>: the state after the code units \<open>u\<close>; \<open>eats ml s r P\<close>: the matches of \<open>r\<close>
  from a state are the prefixes \<open>u\<close> of the rest of the text with \<open>P u t'\<close>, where \<open>t'\<close> is
  what follows \<open>u\<close>.
\<close>

definition restIs :: "jsstring \<Rightarrow> mstate \<Rightarrow> jsstring \<Rightarrow> bool" where
  "restIs s x t = (pos x \<le> length s \<and> drop (pos x) s = t)"

definition advance :: "mstate \<Rightarrow> jsstring \<Rightarrow> mstate" where
  "advance x u = St (pos x + length u) (caps x)"

definition eats :: "bool \<Rightarrow> jsstring \<Rightarrow> regex \<Rightarrow> (jsstring \<Rightarrow> jsstring \<Rightarrow> bool) \<Rightarrow> bool" where
  "eats ml s r P =
     (\<forall>x t y. restIs s x t \<longrightarrow>
        (y \<in> set (run ml s r x) \<longleftrightarrow> (\<exists>u t'. t = u @ t' \<and> P u t' \<and> y = advance x u)))"

text \<open>
  The parts of a match of the assignment pattern, and the pattern after \<^verbatim>\<open>^\<close> without its
  capturing group.
\<close>

definition assignParts ::
  "jsstring \<Rightarrow> jsstring \<Rightarrow> int \<Rightarrow> jsstring \<Rightarrow> jsstring \<Rightarrow> jsstring \<Rightarrow> bool" where
  "assignParts u b c n w d =
     (u = b @ c # n @ w @ 61 # d \<and> list_all isBlank b \<and> isIdentStart c \<and> list_all isIdentPart n
      \<and> list_all isSpace w \<and> d \<noteq> [] \<and> list_all (\<lambda>c. \<not> isLineTerminator c) d)"

definition assignTail :: regex where
  "assignTail = seqs [Star (Class [Lit 32, Lit 9]), erase ident, Star ws, Chr 61, Plus Dot, Eol]"

section \<open>Facts about the matcher\<close>

subsection \<open>The matcher stays inside the text\<close>

lemma step_bound: "y \<in> set (step P s x) \<Longrightarrow> pos y \<le> length s"
  unfolding step_def by (cases "pos x < length s \<and> P (s ! pos x)") auto

lemma greedy_bound:
  assumes "\<And>x y. y \<in> set (m x) \<Longrightarrow> pos x \<le> N \<Longrightarrow> pos y \<le> N"
  shows "y \<in> set (greedy m n x) \<Longrightarrow> pos x \<le> N \<Longrightarrow> pos y \<le> N"
proof (induction n arbitrary: x)
  case 0
  then show ?case by simp
next
  case (Suc n)
  from Suc.prems(1) consider "y = x"
    | z where "z \<in> set (m x)" "y \<in> set (greedy m n z)"
    unfolding in_greedy_Suc by blast
  then show ?case
  proof cases
    case 1
    with Suc.prems show ?thesis by simp
  next
    case 2
    from assms [OF 2(1) Suc.prems(2)] Suc.IH [OF 2(2)] show ?thesis by simp
  qed
qed

lemma lazy_bound:
  assumes "\<And>x y. y \<in> set (m x) \<Longrightarrow> pos x \<le> N \<Longrightarrow> pos y \<le> N"
  shows "y \<in> set (lazy m n x) \<Longrightarrow> pos x \<le> N \<Longrightarrow> pos y \<le> N"
proof (induction n arbitrary: x)
  case 0
  then show ?case by simp
next
  case (Suc n)
  from Suc.prems(1) consider "y = x"
    | z where "z \<in> set (m x)" "y \<in> set (lazy m n z)"
    unfolding in_lazy_Suc by blast
  then show ?case
  proof cases
    case 1
    with Suc.prems show ?thesis by simp
  next
    case 2
    from assms [OF 2(1) Suc.prems(2)] Suc.IH [OF 2(2)] show ?thesis by simp
  qed
qed

lemma run_bound: "y \<in> set (run ml s r x) \<Longrightarrow> pos x \<le> length s \<Longrightarrow> pos y \<le> length s"
proof (induction r arbitrary: x y)
  case (Chr a)
  then show ?case using step_bound [of y _ s x] by simp
next
  case Dot
  then show ?case using step_bound [of y _ s x] by simp
next
  case (Class as)
  then show ?case using step_bound [of y _ s x] by simp
next
  case (NClass as)
  then show ?case using step_bound [of y _ s x] by simp
next
  case Empty
  then show ?case by simp
next
  case (Seq a b)
  from Seq.prems(1) obtain z where "z \<in> set (run ml s a x)" "y \<in> set (run ml s b z)"
    unfolding in_run_Seq by blast
  then show ?case using Seq.IH Seq.prems(2) by blast
next
  case (Alt a b)
  then show ?case by auto
next
  case (Star a)
  then show ?case
    using greedy_bound [of "run ml s a" "length s"] by (simp add: greedyFrom_def)
next
  case (Plus a)
  from Plus.prems(1) obtain z where z: "z \<in> set (run ml s a x)"
    "y \<in> set (greedy (run ml s a) (length s - pos z) z)"
    by (auto simp: greedyFrom_def)
  from Plus.IH [OF z(1) Plus.prems(2)] have "pos z \<le> length s" .
  with greedy_bound [of "run ml s a" "length s", OF _ z(2)] Plus.IH show ?case by blast
next
  case (LazyStar a)
  then show ?case
    using lazy_bound [of "run ml s a" "length s"] by (simp add: lazyFrom_def)
next
  case (Opt a)
  then show ?case by (auto simp: in_progress)
next
  case (Group k a)
  then show ?case by auto
next
  case (Look a)
  then show ?case by (cases "run ml s a x") auto
next
  case (NegLook a)
  then show ?case by (cases "run ml s a x") auto
next
  case Bol
  then show ?case by (simp split: if_splits)
next
  case Eol
  then show ?case by (simp split: if_splits)
qed

subsection \<open>The quantifiers never run out of iterations\<close>

text \<open>
  \<open>greedy\<close> and \<open>lazy\<close> count their iterations down from \<open>length s - pos x\<close>. That bound
  is never what stops them: inside the text the star satisfies the equation of
  ECMAScript's RepeatMatcher, in which nothing is counted.
\<close>

lemma run_forward: "forward (run ml s a) (length s)"
  unfolding forward_def using run_mono run_bound by blast

lemma progress_ahead:
  assumes "forward m N" "pos x \<le> N" "y \<in> set (progress x (m x))"
  shows "pos y \<le> N" "N - pos y < N - pos x"
proof -
  from assms(3) have y: "y \<in> set (m x)" "pos y \<noteq> pos x"
    by (simp_all add: in_progress)
  with assms(1,2) have "pos x \<le> pos y" "pos y \<le> N"
    unfolding forward_def by blast+
  with y(2) show "pos y \<le> N" "N - pos y < N - pos x"
    by simp_all
qed

lemma progress_at_end:
  assumes "forward m N" "pos x \<le> N" "N - pos x = 0"
  shows "progress x (m x) = []"
proof (cases "progress x (m x)")
  case Nil
  then show ?thesis .
next
  case (Cons y ys)
  then have "y \<in> set (progress x (m x))" by simp
  from progress_ahead(2) [OF assms(1,2) this] assms(3) show ?thesis by simp
qed

lemma greedy_one_more:
  assumes "forward m N"
  shows "pos x \<le> N \<Longrightarrow> N - pos x \<le> n \<Longrightarrow> greedy m (Suc n) x = greedy m n x"
proof (induction n arbitrary: x)
  case 0
  with progress_at_end [OF assms, of x] show ?case by simp
next
  case (Suc n)
  have eq: "greedy m (Suc n) y = greedy m n y" if "y \<in> set (progress x (m x))" for y
  proof -
    from progress_ahead [OF assms Suc.prems(1) that] Suc.prems(2)
    have "pos y \<le> N" "N - pos y \<le> n" by simp_all
    then show ?thesis by (rule Suc.IH)
  qed
  have "map (greedy m (Suc n)) (progress x (m x)) = map (greedy m n) (progress x (m x))"
    by (rule map_cong [OF refl]) (rule eq)
  then show ?case by (simp only: greedy.simps)
qed

lemma lazy_one_more:
  assumes "forward m N"
  shows "pos x \<le> N \<Longrightarrow> N - pos x \<le> n \<Longrightarrow> lazy m (Suc n) x = lazy m n x"
proof (induction n arbitrary: x)
  case 0
  with progress_at_end [OF assms, of x] show ?case by simp
next
  case (Suc n)
  have eq: "lazy m (Suc n) y = lazy m n y" if "y \<in> set (progress x (m x))" for y
  proof -
    from progress_ahead [OF assms Suc.prems(1) that] Suc.prems(2)
    have "pos y \<le> N" "N - pos y \<le> n" by simp_all
    then show ?thesis by (rule Suc.IH)
  qed
  have "map (lazy m (Suc n)) (progress x (m x)) = map (lazy m n) (progress x (m x))"
    by (rule map_cong [OF refl]) (rule eq)
  then show ?case by (simp only: lazy.simps)
qed

lemma greedy_enough:
  assumes "forward m N" "pos x \<le> N"
  shows "greedy m (N - pos x + k) x = greedy m (N - pos x) x"
proof (induction k)
  case 0
  then show ?case by simp
next
  case (Suc k)
  have "greedy m (Suc (N - pos x + k)) x = greedy m (N - pos x + k) x"
    using assms by (rule greedy_one_more) simp
  with Suc show ?case by (simp only: add_Suc_right)
qed

lemma lazy_enough:
  assumes "forward m N" "pos x \<le> N"
  shows "lazy m (N - pos x + k) x = lazy m (N - pos x) x"
proof (induction k)
  case 0
  then show ?case by simp
next
  case (Suc k)
  have "lazy m (Suc (N - pos x + k)) x = lazy m (N - pos x + k) x"
    using assms by (rule lazy_one_more) simp
  with Suc show ?case by (simp only: add_Suc_right)
qed

lemma greedyFrom_unfold:
  assumes "forward m (length s)" "pos x \<le> length s"
  shows "greedyFrom m s x = concat (map (greedyFrom m s) (progress x (m x))) @ [x]"
proof -
  have one: "greedy m (Suc (length s - pos x)) x = greedy m (length s - pos x) x"
    using assms by (rule greedy_one_more) simp
  have eq: "greedy m (length s - pos x) y = greedyFrom m s y"
    if "y \<in> set (progress x (m x))" for y
  proof -
    from progress_ahead [OF assms that]
    have y: "pos y \<le> length s" "length s - pos y < length s - pos x" .
    then have "length s - pos x = length s - pos y + (length s - pos x - (length s - pos y))"
      by simp
    with greedy_enough [OF assms(1) y(1), of "length s - pos x - (length s - pos y)"]
    show ?thesis by (simp only: greedyFrom_def)
  qed
  have "greedyFrom m s x = greedy m (Suc (length s - pos x)) x"
    using one by (simp only: greedyFrom_def)
  also have "\<dots> = concat (map (greedy m (length s - pos x)) (progress x (m x))) @ [x]"
    by (simp only: greedy.simps)
  also have "map (greedy m (length s - pos x)) (progress x (m x))
      = map (greedyFrom m s) (progress x (m x))"
    by (rule map_cong [OF refl]) (rule eq)
  finally show ?thesis .
qed

lemma lazyFrom_unfold:
  assumes "forward m (length s)" "pos x \<le> length s"
  shows "lazyFrom m s x = x # concat (map (lazyFrom m s) (progress x (m x)))"
proof -
  have one: "lazy m (Suc (length s - pos x)) x = lazy m (length s - pos x) x"
    using assms by (rule lazy_one_more) simp
  have eq: "lazy m (length s - pos x) y = lazyFrom m s y"
    if "y \<in> set (progress x (m x))" for y
  proof -
    from progress_ahead [OF assms that]
    have y: "pos y \<le> length s" "length s - pos y < length s - pos x" .
    then have "length s - pos x = length s - pos y + (length s - pos x - (length s - pos y))"
      by simp
    with lazy_enough [OF assms(1) y(1), of "length s - pos x - (length s - pos y)"]
    show ?thesis by (simp only: lazyFrom_def)
  qed
  have "lazyFrom m s x = lazy m (Suc (length s - pos x)) x"
    using one by (simp only: lazyFrom_def)
  also have "\<dots> = x # concat (map (lazy m (length s - pos x)) (progress x (m x)))"
    by (simp only: lazy.simps)
  also have "map (lazy m (length s - pos x)) (progress x (m x))
      = map (lazyFrom m s) (progress x (m x))"
    by (rule map_cong [OF refl]) (rule eq)
  finally show ?thesis .
qed

text \<open>
  \<^verbatim>\<open>a*\<close> tries one more \<open>a\<close> that consumes something and then \<^verbatim>\<open>a*\<close> again, before it
  tries to stop; \<^verbatim>\<open>a*?\<close> tries to stop first; \<^verbatim>\<open>a+\<close> is \<open>a\<close> and then \<^verbatim>\<open>a*\<close>.
\<close>

lemma run_Star_unfold:
  assumes "pos x \<le> length s"
  shows "run ml s (Star a) x = concat (map (run ml s (Star a)) (progress x (run ml s a x))) @ [x]"
proof -
  have "run ml s (Star a) = greedyFrom (run ml s a) s"
    by (rule ext) simp
  with greedyFrom_unfold [OF run_forward assms, of ml a] show ?thesis
    by (simp only:)
qed

lemma run_LazyStar_unfold:
  assumes "pos x \<le> length s"
  shows "run ml s (LazyStar a) x
     = x # concat (map (run ml s (LazyStar a)) (progress x (run ml s a x)))"
proof -
  have "run ml s (LazyStar a) = lazyFrom (run ml s a) s"
    by (rule ext) simp
  with lazyFrom_unfold [OF run_forward assms, of ml a] show ?thesis
    by (simp only:)
qed

lemma run_Plus_unfold: "run ml s (Plus a) x = run ml s (Seq a (Star a)) x"
proof -
  have "run ml s (Star a) = greedyFrom (run ml s a) s"
    by (rule ext) simp
  then show ?thesis by simp
qed

subsection \<open>Where exec finds its match\<close>

lemma regexExec_Nil:
  "run ml s r (St i Map.empty) = [] \<Longrightarrow>
     regexExec ml r s i = (if length s < i then None else regexExec ml r s (Suc i))"
  by (subst regexExec.simps) simp

lemma regexExec_Cons:
  "run ml s r (St i Map.empty) = y # ys \<Longrightarrow>
     regexExec ml r s i = (if length s < i then None else Some (mkMatch s i y))"
  by (subst regexExec.simps) simp

lemma matchAllFrom_None: "regexExec ml r s i = None \<Longrightarrow> matchAllFrom ml r s i = []"
  by (subst matchAllFrom.simps) simp

lemma matchAllFrom_Some:
  "regexExec ml r s i = Some m \<Longrightarrow>
     matchAllFrom ml r s i =
       m # matchAllFrom ml r s (if matched m = [] then Suc (lastIndex m) else lastIndex m)"
  by (subst matchAllFrom.simps) simp

lemma regexExec_Some:
  "regexExec ml r s i = Some m \<Longrightarrow>
     \<exists>j y ys. i \<le> j \<and> j \<le> length s \<and> run ml s r (St j Map.empty) = y # ys \<and> m = mkMatch s j y"
proof (induction ml r s i rule: regexExec.induct)
  case (1 ml r s i)
  show ?case
  proof (cases "run ml s r (St i Map.empty)")
    case Nil
    with "1.prems" have le: "\<not> length s < i" and nx: "regexExec ml r s (Suc i) = Some m"
      by (auto simp: regexExec_Nil split: if_splits)
    from "1.IH" [OF le Nil nx] obtain j y ys where
      "Suc i \<le> j" "j \<le> length s" "run ml s r (St j Map.empty) = y # ys" "m = mkMatch s j y"
      by blast
    then have "i \<le> j \<and> j \<le> length s \<and> run ml s r (St j Map.empty) = y # ys \<and> m = mkMatch s j y"
      by simp
    then show ?thesis by blast
  next
    case (Cons y ys)
    with "1.prems" have "\<not> length s < i" "m = mkMatch s i y"
      by (auto simp: regexExec_Cons split: if_splits)
    with Cons show ?thesis by auto
  qed
qed

lemma regexExec_None:
  "regexExec ml r s i = None \<longleftrightarrow> (\<forall>j. i \<le> j \<and> j \<le> length s \<longrightarrow> run ml s r (St j Map.empty) = [])"
proof (induction ml r s i rule: regexExec.induct)
  case (1 ml r s i)
  show ?case
  proof (cases "length s < i")
    case True
    then show ?thesis by (subst regexExec.simps) auto
  next
    case False
    show ?thesis
    proof (cases "run ml s r (St i Map.empty)")
      case Nil
      have "(\<forall>j. i \<le> j \<and> j \<le> length s \<longrightarrow> run ml s r (St j Map.empty) = [])
            \<longleftrightarrow> (\<forall>j. Suc i \<le> j \<and> j \<le> length s \<longrightarrow> run ml s r (St j Map.empty) = [])"
        using Nil by (metis Suc_leI le_neq_implies_less Suc_leD)
      with "1.IH" [OF False Nil] False Nil show ?thesis by (simp add: regexExec_Nil)
    next
      case (Cons y ys)
      with False show ?thesis by (auto simp: regexExec_Cons)
    qed
  qed
qed

lemma matchAllFrom_member:
  "m \<in> set (matchAllFrom ml r s i) \<Longrightarrow>
     \<exists>j y ys. i \<le> j \<and> j \<le> length s \<and> run ml s r (St j Map.empty) = y # ys \<and> m = mkMatch s j y"
proof (induction ml r s i rule: matchAllFrom.induct)
  case (1 ml r s i)
  show ?case
  proof (cases "regexExec ml r s i")
    case None
    with "1.prems" show ?thesis by (simp add: matchAllFrom_None)
  next
    case (Some m')
    from regexExec_bounds [OF Some] have b: "i \<le> index m'" "index m' \<le> lastIndex m'" by simp_all
    from "1.prems" Some consider "m = m'"
      | "m \<in> set (matchAllFrom ml r s (if matched m' = [] then Suc (lastIndex m') else lastIndex m'))"
      by (auto simp: matchAllFrom_Some)
    then show ?thesis
    proof cases
      case 1
      with regexExec_Some [OF Some] show ?thesis by simp
    next
      case 2
      from "1.IH" [OF Some 2] obtain j y ys where
        j: "(if matched m' = [] then Suc (lastIndex m') else lastIndex m') \<le> j" "j \<le> length s"
           "run ml s r (St j Map.empty) = y # ys" "m = mkMatch s j y"
        by blast
      from j(1) b have "i \<le> j" by (auto split: if_splits)
      with j show ?thesis by blast
    qed
  qed
qed

lemma mkMatch_simps:
  "index (mkMatch s i y) = i" "lastIndex (mkMatch s i y) = pos y"
  "matched (mkMatch s i y) = substring s i (pos y)"
  "groups (mkMatch s i y) k = map_option (\<lambda>(a, b). substring s a b) (caps y k)"
  by (simp_all add: mkMatch_def)

lemma matchAllFrom_index:
  "m \<in> set (matchAllFrom ml r s i) \<Longrightarrow> i \<le> index m"
  using matchAllFrom_member [of m ml r s i] by (auto simp: mkMatch_simps)

lemma matchAllFrom_leftToRight: "leftToRight (matchAllFrom ml r s i)"
proof (induction ml r s i rule: matchAllFrom.induct)
  case (1 ml r s i)
  show ?case
  proof (cases "regexExec ml r s i")
    case None
    then show ?thesis by (simp add: leftToRight_def matchAllFrom_None)
  next
    case (Some m)
    let ?n = "if matched m = [] then Suc (lastIndex m) else lastIndex m"
    have "\<And>m'. m' \<in> set (matchAllFrom ml r s ?n) \<Longrightarrow> lastIndex m \<le> index m'"
      using matchAllFrom_index [of _ ml r s ?n] by (fastforce split: if_splits)
    with "1.IH" [OF Some] show ?thesis
      by (simp add: leftToRight_def matchAllFrom_Some [OF Some])
  qed
qed

subsection \<open>The exec loop and matchAll\<close>

lemma regexExec_consuming:
  assumes "consuming r" "regexExec ml r s i = Some m"
  shows "index m < lastIndex m" "matched m \<noteq> []"
proof -
  from regexExec_Some [OF assms(2)] obtain j y ys where
    j: "j \<le> length s" "run ml s r (St j Map.empty) = y # ys" "m = mkMatch s j y"
    by blast
  then have y: "y \<in> set (run ml s r (St j Map.empty))" by simp
  with assms(1) have "j < pos y" unfolding consuming_def by fastforce
  moreover from run_bound [OF y] j(1) have "pos y \<le> length s" by simp
  ultimately show "index m < lastIndex m" "matched m \<noteq> []"
    using j by (auto simp: mkMatch_simps substring_def)
qed

lemma execLoop_matchAllFrom:
  "consuming r \<Longrightarrow>
     execLoop (regexExec ml r s) body i acc = Some (pushAll body acc (matchAllFrom ml r s i))"
proof (induction ml r s i arbitrary: acc rule: matchAllFrom.induct)
  case (1 ml r s i)
  show ?case
  proof (cases "regexExec ml r s i")
    case None
    then show ?thesis
      by (subst execLoop.simps) (simp add: matchAllFrom_None)
  next
    case (Some m)
    from regexExec_consuming [OF "1.prems" Some] have ne: "matched m \<noteq> []" by simp
    show ?thesis
    proof (cases "body m")
      case (Inl e)
      with Some show ?thesis by (subst execLoop.simps) (simp add: matchAllFrom_Some)
    next
      case (Inr f)
      from "1.IH" [OF Some "1.prems", of "acc @ [f]"] ne Some Inr show ?thesis
        by (subst execLoop.simps) (simp add: matchAllFrom_Some)
    qed
  qed
qed

lemma pushAll_Inr:
  assumes "\<And>m. m \<in> set ms \<Longrightarrow> \<exists>f. body m = Inr f"
  shows "\<exists>fs. pushAll body acc ms = Inr (acc @ fs) \<and> map body ms = map Inr fs"
  using assms
proof (induction ms arbitrary: acc)
  case Nil
  then show ?case by simp
next
  case (Cons m ms)
  from Cons.prems obtain f where f: "body m = Inr f" by auto
  from Cons.IH [of "acc @ [f]"] Cons.prems obtain fs where
    "pushAll body (acc @ [f]) ms = Inr ((acc @ [f]) @ fs)" "map body ms = map Inr fs"
    by auto
  with f show ?case
    by (intro exI [of _ "f # fs"]) simp
qed

subsection \<open>Captures\<close>

lemma greedy_caps:
  assumes "\<And>x y. y \<in> set (m x) \<Longrightarrow> caps y k = caps x k"
  shows "y \<in> set (greedy m n x) \<Longrightarrow> caps y k = caps x k"
proof (induction n arbitrary: x)
  case 0
  then show ?case by simp
next
  case (Suc n)
  from Suc.prems consider "y = x"
    | z where "z \<in> set (m x)" "y \<in> set (greedy m n z)"
    unfolding in_greedy_Suc by blast
  then show ?case
  proof cases
    case 1
    then show ?thesis by simp
  next
    case 2
    from assms [OF 2(1)] Suc.IH [OF 2(2)] show ?thesis by simp
  qed
qed

lemma lazy_caps:
  assumes "\<And>x y. y \<in> set (m x) \<Longrightarrow> caps y k = caps x k"
  shows "y \<in> set (lazy m n x) \<Longrightarrow> caps y k = caps x k"
proof (induction n arbitrary: x)
  case 0
  then show ?case by simp
next
  case (Suc n)
  from Suc.prems consider "y = x"
    | z where "z \<in> set (m x)" "y \<in> set (lazy m n z)"
    unfolding in_lazy_Suc by blast
  then show ?case
  proof cases
    case 1
    then show ?thesis by simp
  next
    case 2
    from assms [OF 2(1)] Suc.IH [OF 2(2)] show ?thesis by simp
  qed
qed

lemma run_caps: "y \<in> set (run ml s r x) \<Longrightarrow> k \<notin> groupsOf r \<Longrightarrow> caps y k = caps x k"
proof (induction r arbitrary: x y)
  case (Chr a)
  then show ?case using step_mono [of y _ s x] by simp
next
  case Dot
  then show ?case using step_mono [of y _ s x] by simp
next
  case (Class as)
  then show ?case using step_mono [of y _ s x] by simp
next
  case (NClass as)
  then show ?case using step_mono [of y _ s x] by simp
next
  case Empty
  then show ?case by simp
next
  case (Seq a b)
  from Seq.prems(1) obtain z where z: "z \<in> set (run ml s a x)" "y \<in> set (run ml s b z)"
    unfolding in_run_Seq by blast
  from Seq.prems(2) have k: "k \<notin> groupsOf a" "k \<notin> groupsOf b" by simp_all
  from Seq.IH(1) [OF z(1) k(1)] Seq.IH(2) [OF z(2) k(2)] show ?case by simp
next
  case (Alt a b)
  from Alt.prems(2) have k: "k \<notin> groupsOf a" "k \<notin> groupsOf b" by simp_all
  from Alt.prems(1) consider "y \<in> set (run ml s a x)" | "y \<in> set (run ml s b x)" by auto
  then show ?case
  proof cases
    case 1
    from Alt.IH(1) [OF 1 k(1)] show ?thesis .
  next
    case 2
    from Alt.IH(2) [OF 2 k(2)] show ?thesis .
  qed
next
  case (Star a)
  have inner: "caps y' k = caps x' k" if "y' \<in> set (run ml s a x')" for x' y'
    using Star.IH [OF that] Star.prems(2) by simp
  from Star.prems(1) have "y \<in> set (greedy (run ml s a) (length s - pos x) x)"
    by (simp add: greedyFrom_def)
  then show ?case using inner by (rule greedy_caps [of "run ml s a" k, rotated])
next
  case (Plus a)
  have inner: "caps y' k = caps x' k" if "y' \<in> set (run ml s a x')" for x' y'
    using Plus.IH [OF that] Plus.prems(2) by simp
  from Plus.prems(1) obtain z where z: "z \<in> set (run ml s a x)"
    "y \<in> set (greedy (run ml s a) (length s - pos z) z)"
    by (auto simp: greedyFrom_def)
  have "caps y k = caps z k"
    using z(2) inner by (rule greedy_caps [of "run ml s a" k, rotated])
  with inner [OF z(1)] show ?case by simp
next
  case (LazyStar a)
  have inner: "caps y' k = caps x' k" if "y' \<in> set (run ml s a x')" for x' y'
    using LazyStar.IH [OF that] LazyStar.prems(2) by simp
  from LazyStar.prems(1) have "y \<in> set (lazy (run ml s a) (length s - pos x) x)"
    by (simp add: lazyFrom_def)
  then show ?case using inner by (rule lazy_caps [of "run ml s a" k, rotated])
next
  case (Opt a)
  from Opt.prems(1) consider "y = x" | "y \<in> set (run ml s a x)"
    by (auto simp: in_progress)
  then show ?case
  proof cases
    case 1
    then show ?thesis by simp
  next
    case 2
    from Opt.IH [OF 2] Opt.prems(2) show ?thesis by simp
  qed
next
  case (Group j a)
  from Group.prems(1) obtain z where
    z: "z \<in> set (run ml s a x)" "y = St (pos z) ((caps z)(j \<mapsto> (pos x, pos z)))"
    by auto
  from Group.prems(2) have k: "k \<noteq> j" "k \<notin> groupsOf a" by simp_all
  from Group.IH [OF z(1) k(2)] z(2) k(1) show ?case by simp
next
  case (Look a)
  show ?case
  proof (cases "run ml s a x")
    case Nil
    with Look.prems(1) show ?thesis by simp
  next
    case (Cons z zs)
    then have z: "z \<in> set (run ml s a x)" by simp
    from Look.prems(1) Cons have "y = St (pos x) (caps z)" by simp
    with Look.IH [OF z] Look.prems(2) show ?thesis by simp
  qed
next
  case (NegLook a)
  then show ?case by (cases "run ml s a x") simp_all
next
  case Bol
  then show ?case by (simp split: if_splits)
next
  case Eol
  then show ?case by (simp split: if_splits)
qed

lemma definesGroup_sound:
  "definesGroup r k \<Longrightarrow> y \<in> set (run ml s r x) \<Longrightarrow> caps y k \<noteq> None"
proof (induction r arbitrary: x y)
  case (Seq a b)
  from Seq.prems(2) obtain z where z: "z \<in> set (run ml s a x)" "y \<in> set (run ml s b z)"
    unfolding in_run_Seq by blast
  from Seq.prems(1) consider "definesGroup b k" | "definesGroup a k" "k \<notin> groupsOf b"
    by auto
  then show ?case
  proof cases
    case 1
    with Seq.IH(2) z(2) show ?thesis by blast
  next
    case 2
    from Seq.IH(1) [OF 2(1) z(1)] run_caps [OF z(2) 2(2)] show ?thesis by simp
  qed
next
  case (Alt a b)
  then show ?case by auto
next
  case (Group j a)
  then show ?case by auto
qed simp_all

lemma consumes_sound: "consumes r \<Longrightarrow> y \<in> set (run ml s r x) \<Longrightarrow> pos x < pos y"
proof (induction r arbitrary: x y)
  case (Chr a)
  then show ?case using step_mono [of y _ s x] by simp
next
  case Dot
  then show ?case using step_mono [of y _ s x] by simp
next
  case (Class as)
  then show ?case using step_mono [of y _ s x] by simp
next
  case (NClass as)
  then show ?case using step_mono [of y _ s x] by simp
next
  case (Seq a b)
  from Seq.prems(2) obtain z where z: "z \<in> set (run ml s a x)" "y \<in> set (run ml s b z)"
    unfolding in_run_Seq by blast
  from run_mono [OF z(1)] run_mono [OF z(2)] Seq.IH(1) [OF _ z(1)] Seq.IH(2) [OF _ z(2)] Seq.prems(1)
  show ?case by auto
next
  case (Alt a b)
  then show ?case by auto
next
  case (Plus a)
  from Plus.prems(2) obtain z where z: "z \<in> set (run ml s a x)"
    "y \<in> set (greedy (run ml s a) (length s - pos z) z)"
    by (auto simp: greedyFrom_def)
  have "pos z \<le> pos y"
    using greedy_mono [of "run ml s a", OF _ z(2)] run_mono by blast
  with Plus.IH [OF _ z(1)] Plus.prems(1) show ?case by simp
next
  case (Group k a)
  then show ?case by auto
qed simp_all

lemma consumes_consuming: "consumes r \<Longrightarrow> consuming r"
  unfolding consuming_def using consumes_sound by blast

lemma matchAll_groups:
  assumes "definesGroup r k" "m \<in> set (matchAllFrom ml r s i)"
  shows "groups m k \<noteq> None"
proof -
  from matchAllFrom_member [OF assms(2)] obtain j y ys where
    j: "run ml s r (St j Map.empty) = y # ys" "m = mkMatch s j y"
    by blast
  then have "y \<in> set (run ml s r (St j Map.empty))" by simp
  from definesGroup_sound [OF assms(1) this] j(2) show ?thesis
    by (simp add: mkMatch_simps)
qed

subsection \<open>What the patterns consume and capture\<close>

lemma seqs_simps: "seqs [] = Empty" "seqs (a # as) = Seq a (seqs as)"
  by (simp_all add: seqs_def)

lemma lit_simps: "lit [] = Empty" "lit (c # cs) = Seq (Chr (of_char c)) (lit cs)"
  by (simp_all add: lit_def)

lemmas pattern_defs =
  pyFuncRegex_def jsFuncRegex_def arrowFuncRegex_def pyRegex_def jsRegex_def arrowRegex_def
  docstringRegex_def assignRegex_def declRegex_def longFuncRegex_def newlineRegex_def
  ws_def ident_def notParen_def seqs_simps lit_simps

lemma function_patterns_consume:
  "consumes pyFuncRegex" "consumes jsFuncRegex" "consumes arrowFuncRegex"
  "consumes pyRegex" "consumes jsRegex" "consumes arrowRegex"
  by (simp_all add: pattern_defs)

lemma function_patterns_groups:
  "definesGroup pyFuncRegex 2" "definesGroup jsFuncRegex 2" "definesGroup arrowFuncRegex 2"
  "definesGroup pyRegex 2" "definesGroup jsRegex 2" "definesGroup arrowRegex 2"
  by (simp_all add: pattern_defs)

lemma longFuncRegex_group: "definesGroup longFuncRegex 1"
  by (simp add: pattern_defs)

section \<open>The three extraction passes\<close>

lemma pushFunc_total:
  assumes "definesGroup r 2" "m \<in> set (matchAll ml r s)"
  shows "\<exists>f. pushFunc lang m = Inr f"
  using matchAll_groups [OF assms(1), of m ml s 0] assms(2)
  by (auto simp: pushFunc_def matchAll_def split: option.splits)

lemma pushDoc_total:
  assumes "definesGroup r 2" "m \<in> set (matchAll ml r s)"
  shows "\<exists>f. pushDoc m = Inr f"
  using matchAll_groups [OF assms(1), of m ml s 0] assms(2)
  by (auto simp: pushDoc_def matchAll_def split: option.splits)

lemma execLoop_pass:
  assumes "consumes r" "\<And>m. m \<in> set (matchAll ml r s) \<Longrightarrow> \<exists>f. body m = Inr f"
  shows "\<exists>fs. execLoop (regexExec ml r s) body 0 acc = Some (Inr (acc @ fs))
           \<and> map Inr fs = map body (matchAll ml r s)"
proof -
  from pushAll_Inr [of "matchAll ml r s" body acc] assms(2) obtain fs where
    "pushAll body acc (matchAll ml r s) = Inr (acc @ fs)" "map body (matchAll ml r s) = map Inr fs"
    by blast
  with execLoop_matchAllFrom [OF consumes_consuming [OF assms(1)], of ml s body 0 acc]
  show ?thesis by (auto simp: matchAll_def)
qed

lemma explFunctions_passes:
  "\<exists>ps js as.
     explFunctions code = Some (Inr (ps @ js @ as)) \<and>
     map Inr ps = map (pushFunc Python) (matchAll False pyFuncRegex code) \<and>
     map Inr js = map (pushFunc JavaScript) (matchAll False jsFuncRegex code) \<and>
     map Inr as = map (pushFunc JavaScript) (matchAll False arrowFuncRegex code)"
proof -
  from execLoop_pass [OF function_patterns_consume(1), of False code "pushFunc Python" "[]"]
    pushFunc_total [OF function_patterns_groups(1)]
  obtain ps where ps:
    "execLoop (regexExec False pyFuncRegex code) (pushFunc Python) 0 [] = Some (Inr ps)"
    "map Inr ps = map (pushFunc Python) (matchAll False pyFuncRegex code)"
    by auto
  from execLoop_pass [OF function_patterns_consume(2), of False code "pushFunc JavaScript" ps]
    pushFunc_total [OF function_patterns_groups(2)]
  obtain js where js:
    "execLoop (regexExec False jsFuncRegex code) (pushFunc JavaScript) 0 ps = Some (Inr (ps @ js))"
    "map Inr js = map (pushFunc JavaScript) (matchAll False jsFuncRegex code)"
    by blast
  from execLoop_pass [OF function_patterns_consume(3), of False code "pushFunc JavaScript" "ps @ js"]
    pushFunc_total [OF function_patterns_groups(3)]
  obtain as where as:
    "execLoop (regexExec False arrowFuncRegex code) (pushFunc JavaScript) 0 (ps @ js)
       = Some (Inr ((ps @ js) @ as))"
    "map Inr as = map (pushFunc JavaScript) (matchAll False arrowFuncRegex code)"
    by blast
  from ps js as have "explFunctions code = Some (Inr (ps @ js @ as))"
    by (simp add: explFunctions_def thenDo_def)
  with ps(2) js(2) as(2) show ?thesis by blast
qed

lemma docFunctions_passes:
  "\<exists>ps js as.
     docFunctions code = Some (Inr (ps @ js @ as)) \<and>
     map Inr ps = map pushDoc (matchAll False pyRegex code) \<and>
     map Inr js = map pushDoc (matchAll False jsRegex code) \<and>
     map Inr as = map pushDoc (matchAll False arrowRegex code)"
proof -
  from execLoop_pass [OF function_patterns_consume(4), of False code pushDoc "[]"]
    pushDoc_total [OF function_patterns_groups(4)]
  obtain ps where ps:
    "execLoop (regexExec False pyRegex code) pushDoc 0 [] = Some (Inr ps)"
    "map Inr ps = map pushDoc (matchAll False pyRegex code)"
    by auto
  from execLoop_pass [OF function_patterns_consume(5), of False code pushDoc ps]
    pushDoc_total [OF function_patterns_groups(5)]
  obtain js where js:
    "execLoop (regexExec False jsRegex code) pushDoc 0 ps = Some (Inr (ps @ js))"
    "map Inr js = map pushDoc (matchAll False jsRegex code)"
    by blast
  from execLoop_pass [OF function_patterns_consume(6), of False code pushDoc "ps @ js"]
    pushDoc_total [OF function_patterns_groups(6)]
  obtain as where as:
    "execLoop (regexExec False arrowRegex code) pushDoc 0 (ps @ js) = Some (Inr ((ps @ js) @ as))"
    "map Inr as = map pushDoc (matchAll False arrowRegex code)"
    by blast
  from ps js as have "docFunctions code = Some (Inr (ps @ js @ as))"
    by (simp add: docFunctions_def thenDo_def)
  with ps(2) js(2) as(2) show ?thesis by blast
qed

text \<open>
  C2. The Signature Extractor collects its matches pass by pass: the functions are those of
  the Python pass, then those of the \<^verbatim>\<open>function\<close> pass, then those of the arrow pass, each
  pass in the order of the text, and the passes are concatenated.
\<close>

theorem extraction_in_pass_order:
  "\<exists>ps js as.
     explFunctions code = Some (Inr (ps @ js @ as)) \<and>
     map Inr ps = map (pushFunc Python) (matchAll False pyFuncRegex code) \<and>
     map Inr js = map (pushFunc JavaScript) (matchAll False jsFuncRegex code) \<and>
     map Inr as = map (pushFunc JavaScript) (matchAll False arrowFuncRegex code) \<and>
     leftToRight (matchAll False pyFuncRegex code) \<and>
     leftToRight (matchAll False jsFuncRegex code) \<and>
     leftToRight (matchAll False arrowFuncRegex code)"
  using explFunctions_passes [of code] matchAllFrom_leftToRight
  unfolding matchAll_def by blast

text \<open>
  The order of the passes is not the order of the text: a \<^verbatim>\<open>function\<close> written before a
  \<^verbatim>\<open>def\<close> comes after it.
\<close>

lemma pass_order_is_not_text_order:
  "explFunctions (str ''function f(a) {}'' @ [10] @ str ''def g(b):'')
     = Some (Inr [\<lparr>name = Some (str ''g''), params = str ''b'', language = Python\<rparr>,
                  \<lparr>name = Some (str ''f''), params = str ''a'', language = JavaScript\<rparr>])"
  by code_simp

lemma same_signatures:
  "map Inr fs = map (pushFunc lang) ms \<Longrightarrow> map Inr ds = map pushDoc ms \<Longrightarrow>
     map (\<lambda>f. (name f, params f)) fs = map (\<lambda>d. (name d, params d)) ds"
proof (induction ms arbitrary: fs ds)
  case Nil
  then show ?case by simp
next
  case (Cons m ms)
  from Cons.prems obtain f fs' d ds' where
    eq: "fs = f # fs'" "ds = d # ds'" "pushFunc lang m = Inr f" "pushDoc m = Inr d"
        "map Inr fs' = map (pushFunc lang) ms" "map Inr ds' = map pushDoc ms"
    by (cases fs; cases ds) auto
  from eq(3,4) have "name f = name d" "params f = params d"
    by (auto simp: pushFunc_def pushDoc_def split: option.splits)
  with Cons.IH [OF eq(5,6)] eq(1,2) show ?case by simp
qed

lemma duplicated_patterns:
  "pyRegex = pyFuncRegex" "jsRegex = jsFuncRegex" "arrowRegex = arrowFuncRegex"
  by (simp_all add: pyRegex_def pyFuncRegex_def jsRegex_def jsFuncRegex_def arrowRegex_def
      arrowFuncRegex_def)

text \<open>
  C3. The extraction of generateDocumentation yields the same sequence of (name, parameter
  text) pairs as the extraction of generateExplanation.
\<close>

theorem documentation_extraction_same:
  "\<exists>fs ds.
     explFunctions code = Some (Inr fs) \<and> docFunctions code = Some (Inr ds) \<and>
     map (\<lambda>f. (name f, params f)) fs = map (\<lambda>d. (name d, params d)) ds"
proof -
  from explFunctions_passes [of code] obtain ps js as where
    e: "explFunctions code = Some (Inr (ps @ js @ as))"
       "map Inr ps = map (pushFunc Python) (matchAll False pyFuncRegex code)"
       "map Inr js = map (pushFunc JavaScript) (matchAll False jsFuncRegex code)"
       "map Inr as = map (pushFunc JavaScript) (matchAll False arrowFuncRegex code)"
    by blast
  from docFunctions_passes [of code] obtain ps' js' as' where
    d: "docFunctions code = Some (Inr (ps' @ js' @ as'))"
       "map Inr ps' = map pushDoc (matchAll False pyFuncRegex code)"
       "map Inr js' = map pushDoc (matchAll False jsFuncRegex code)"
       "map Inr as' = map pushDoc (matchAll False arrowFuncRegex code)"
    unfolding duplicated_patterns by blast
  from same_signatures [OF e(2) d(2)] same_signatures [OF e(3) d(3)] same_signatures [OF e(4) d(4)]
  have "map (\<lambda>f. (name f, params f)) (ps @ js @ as) = map (\<lambda>d. (name d, params d)) (ps' @ js' @ as')"
    by simp
  with e(1) d(1) show ?thesis by blast
qed

section \<open>The three generators return\<close>

lemma generateExplanation_returns:
  "\<exists>fs. explFunctions code = Some (Inr fs) \<and> generateExplanation code = Some (Inr (explain code fs))"
  using explFunctions_passes [of code]
  by (auto simp: generateExplanation_def thenDo_def)

lemma generateDocumentation_returns:
  "\<exists>ds. docFunctions code = Some (Inr ds)
     \<and> generateDocumentation code = Some (Inr (join [10] (docLines ds)))"
  using docFunctions_passes [of code]
  by (auto simp: generateDocumentation_def thenDo_def)

lemma filterE_Inr:
  "(\<And>x. x \<in> set xs \<Longrightarrow> \<exists>b. f x = Inr b) \<Longrightarrow> \<exists>ys. filterE f xs = Inr ys \<and> set ys \<subseteq> set xs"
proof (induction xs)
  case Nil
  then show ?case by simp
next
  case (Cons x xs)
  from Cons.prems obtain b where b: "f x = Inr b" by auto
  from Cons.IH Cons.prems obtain ys where "filterE f xs = Inr ys" "set ys \<subseteq> set xs" by auto
  with b show ?case by auto
qed

lemma longFuncs_returns: "\<exists>ms. longFuncs code = Inr ms"
proof -
  have "\<exists>b. isLong m = Inr b" if "m \<in> set (matchAll False longFuncRegex code)" for m
    using matchAll_groups [OF longFuncRegex_group, of m False code 0] that
    by (auto simp: isLong_def matchAll_def split: option.splits)
  from filterE_Inr [of "matchAll False longFuncRegex code" isLong, OF this]
  show ?thesis by (auto simp: longFuncs_def)
qed

lemma suggestions_returns: "\<exists>ss. suggestions code = Inr ss"
  using longFuncs_returns [of code] by (auto simp: suggestions_def Let_def)

lemma generateSuggestion_returns: "\<exists>sg. generateSuggestion code = Inr sg"
  using suggestions_returns [of code] by (auto simp: generateSuggestion_def)

text \<open>
  C1. When the trimmed input is empty, analyzeCode only shows the alert: no output element
  is written and the output section stays as it was. For every other input the three
  generators return, and analyzeCode writes the input and their three texts and shows the
  output section.
\<close>

theorem analyzeCode_gate:
  "(trim (codeInput p) = [] \<longrightarrow>
      analyzeCode p = Some (Inr (p\<lparr>alerts := alerts p @ [emptyInputAlert]\<rparr>))) \<and>
   (trim (codeInput p) \<noteq> [] \<longrightarrow>
      (\<exists>e sg d.
         generateExplanation (codeInput p) = Some (Inr e) \<and>
         generateSuggestion (codeInput p) = Inr sg \<and>
         generateDocumentation (codeInput p) = Some (Inr d) \<and>
         analyzeCode p =
           Some (Inr (p\<lparr>originalCode := codeInput p, explanation := e, suggestion := sg,
                        documentation := d, outputHidden := False\<rparr>))))"
proof (intro conjI impI)
  assume "trim (codeInput p) = []"
  then show "analyzeCode p = Some (Inr (p\<lparr>alerts := alerts p @ [emptyInputAlert]\<rparr>))"
    by (simp add: analyzeCode_def)
next
  assume ne: "trim (codeInput p) \<noteq> []"
  from generateExplanation_returns [of "codeInput p"] obtain e where
    e: "generateExplanation (codeInput p) = Some (Inr e)" by blast
  from generateSuggestion_returns [of "codeInput p"] obtain sg where
    sg: "generateSuggestion (codeInput p) = Inr sg" by blast
  from generateDocumentation_returns [of "codeInput p"] obtain d where
    d: "generateDocumentation (codeInput p) = Some (Inr d)" by blast
  from ne e sg d have "analyzeCode p =
      Some (Inr (p\<lparr>originalCode := codeInput p, explanation := e, suggestion := sg,
                   documentation := d, outputHidden := False\<rparr>))"
    by (simp add: analyzeCode_def thenDo_def)
  with e sg d show "\<exists>e sg d.
         generateExplanation (codeInput p) = Some (Inr e) \<and>
         generateSuggestion (codeInput p) = Inr sg \<and>
         generateDocumentation (codeInput p) = Some (Inr d) \<and>
         analyzeCode p =
           Some (Inr (p\<lparr>originalCode := codeInput p, explanation := e, suggestion := sg,
                        documentation := d, outputHidden := False\<rparr>))"
    by blast
qed

theorem analyzeCode_gate_witness:
  "analyzeCode \<lparr>codeInput = str ''   '', originalCode = [], explanation = [], suggestion = [],
       documentation = [], outputHidden = True, alerts = []\<rparr>
     = Some (Inr \<lparr>codeInput = str ''   '', originalCode = [], explanation = [], suggestion = [],
         documentation = [], outputHidden = True, alerts = [emptyInputAlert]\<rparr>)
   \<and> (\<exists>e sg d.
        analyzeCode \<lparr>codeInput = str ''x = 1'', originalCode = [], explanation = [],
            suggestion = [], documentation = [], outputHidden = True, alerts = []\<rparr>
          = Some (Inr \<lparr>codeInput = str ''x = 1'', originalCode = str ''x = 1'', explanation = e,
              suggestion = sg, documentation = d, outputHidden = False, alerts = []\<rparr>))"
proof -
  have a: "trim (str ''   '') = []" by code_simp
  have b: "trim (str ''x = 1'') \<noteq> []" by code_simp
  from analyzeCode_gate [of "\<lparr>codeInput = str ''   '', originalCode = [], explanation = [],
       suggestion = [], documentation = [], outputHidden = True, alerts = []\<rparr>"] a
  have 1: "analyzeCode \<lparr>codeInput = str ''   '', originalCode = [], explanation = [],
       suggestion = [], documentation = [], outputHidden = True, alerts = []\<rparr>
     = Some (Inr \<lparr>codeInput = str ''   '', originalCode = [], explanation = [], suggestion = [],
         documentation = [], outputHidden = True, alerts = [emptyInputAlert]\<rparr>)"
    by simp
  from analyzeCode_gate [of "\<lparr>codeInput = str ''x = 1'', originalCode = [], explanation = [],
       suggestion = [], documentation = [], outputHidden = True, alerts = []\<rparr>"] b
  have 2: "\<exists>e sg d.
        analyzeCode \<lparr>codeInput = str ''x = 1'', originalCode = [], explanation = [],
            suggestion = [], documentation = [], outputHidden = True, alerts = []\<rparr>
          = Some (Inr \<lparr>codeInput = str ''x = 1'', originalCode = str ''x = 1'', explanation = e,
              suggestion = sg, documentation = d, outputHidden = False, alerts = []\<rparr>)"
    by auto
  from 1 2 show ?thesis by (intro conjI)
qed

section \<open>Captures do not steer the matcher\<close>

text \<open>
  The patterns of \<^verbatim>\<open>script.js\<close> have no backreference, so where a pattern can end does
  not depend on the captures: a pattern and the same pattern without its capturing groups
  end at the same positions, in the same order.
\<close>

lemma samePos_Nil: "samePos [] []"
  by (simp add: samePos_def)

lemma samePos_single: "pos a = pos b \<Longrightarrow> samePos [a] [b]"
  by (simp add: samePos_def)

lemma samePos_append: "samePos xs ys \<Longrightarrow> samePos us vs \<Longrightarrow> samePos (xs @ us) (ys @ vs)"
  unfolding samePos_def by (rule list_all2_appendI)

lemma samePos_Cons: "pos a = pos b \<Longrightarrow> samePos xs ys \<Longrightarrow> samePos (a # xs) (b # ys)"
  by (simp add: samePos_def)

lemma samePos_empty: "samePos xs ys \<Longrightarrow> xs = [] \<longleftrightarrow> ys = []"
  unfolding samePos_def by (cases xs; cases ys) simp_all

lemma samePos_concat:
  assumes "samePos xs ys" "\<And>a b. pos a = pos b \<Longrightarrow> samePos (f a) (g b)"
  shows "samePos (concat (map f xs)) (concat (map g ys))"
  using assms(1) unfolding samePos_def
proof (induction rule: list_all2_induct)
  case Nil
  then show ?case by simp
next
  case (Cons a xs b ys)
  from assms(2) [OF Cons.hyps(1)] Cons.IH show ?case
    by (simp add: samePos_def list_all2_appendI)
qed

lemma samePos_progress:
  assumes "samePos xs ys" "pos x = pos y"
  shows "samePos (progress x xs) (progress y ys)"
  using assms(1) unfolding samePos_def
proof (induction rule: list_all2_induct)
  case Nil
  then show ?case by (simp add: progress_def)
next
  case (Cons a xs b ys)
  with assms(2) show ?case by (simp add: progress_def)
qed

lemma samePos_map:
  assumes "samePos xs ys" "\<And>a. pos (f a) = pos a" "\<And>b. pos (g b) = pos b"
  shows "samePos (map f xs) (map g ys)"
  using assms unfolding samePos_def by (simp add: list_all2_map1 list_all2_map2)

lemma samePos_step: "pos x = pos y \<Longrightarrow> samePos (step P s x) (step P s y)"
  by (simp add: step_def samePos_def)

lemma samePos_greedy:
  assumes "\<And>a b. pos a = pos b \<Longrightarrow> samePos (m a) (m' b)"
  shows "pos x = pos y \<Longrightarrow> samePos (greedy m n x) (greedy m' n y)"
proof (induction n arbitrary: x y)
  case 0
  then show ?case by (simp add: samePos_single)
next
  case (Suc n)
  have "samePos (progress x (m x)) (progress y (m' y))"
    using assms [OF Suc.prems] Suc.prems by (rule samePos_progress)
  then have "samePos (concat (map (greedy m n) (progress x (m x))))
                     (concat (map (greedy m' n) (progress y (m' y))))"
    using Suc.IH by (rule samePos_concat)
  then show ?case
    using Suc.prems by (simp add: samePos_append samePos_single)
qed

lemma samePos_lazy:
  assumes "\<And>a b. pos a = pos b \<Longrightarrow> samePos (m a) (m' b)"
  shows "pos x = pos y \<Longrightarrow> samePos (lazy m n x) (lazy m' n y)"
proof (induction n arbitrary: x y)
  case 0
  then show ?case by (simp add: samePos_single)
next
  case (Suc n)
  have "samePos (progress x (m x)) (progress y (m' y))"
    using assms [OF Suc.prems] Suc.prems by (rule samePos_progress)
  then have "samePos (concat (map (lazy m n) (progress x (m x))))
                     (concat (map (lazy m' n) (progress y (m' y))))"
    using Suc.IH by (rule samePos_concat)
  then show ?case
    using Suc.prems by (simp add: samePos_Cons)
qed

lemma run_erase: "pos x = pos y \<Longrightarrow> samePos (run ml s (erase r) x) (run ml s r y)"
proof (induction r arbitrary: x y)
  case (Chr a)
  then show ?case by (simp add: samePos_step)
next
  case Dot
  then show ?case by (simp add: samePos_step)
next
  case (Class as)
  then show ?case by (simp add: samePos_step)
next
  case (NClass as)
  then show ?case by (simp add: samePos_step)
next
  case Empty
  then show ?case by (simp add: samePos_single)
next
  case (Seq a b)
  from Seq.IH(1) [OF Seq.prems] Seq.IH(2) show ?case
    by (simp add: samePos_concat)
next
  case (Alt a b)
  from Alt.IH(1) [OF Alt.prems] Alt.IH(2) [OF Alt.prems] show ?case
    by (simp add: samePos_append)
next
  case (Star a)
  from Star.prems have "length s - pos x = length s - pos y" by simp
  with samePos_greedy [of "run ml s (erase a)" "run ml s a", OF Star.IH Star.prems]
  show ?case by (simp add: greedyFrom_def)
next
  case (Plus a)
  have "samePos (greedyFrom (run ml s (erase a)) s u) (greedyFrom (run ml s a) s v)"
    if "pos u = pos v" for u v
    using samePos_greedy [of "run ml s (erase a)" "run ml s a", OF Plus.IH that] that
    by (simp add: greedyFrom_def)
  with Plus.IH [OF Plus.prems] show ?case
    by (simp add: samePos_concat)
next
  case (LazyStar a)
  from LazyStar.prems have "length s - pos x = length s - pos y" by simp
  with samePos_lazy [of "run ml s (erase a)" "run ml s a", OF LazyStar.IH LazyStar.prems]
  show ?case by (simp add: lazyFrom_def)
next
  case (Opt a)
  from samePos_progress [OF Opt.IH [OF Opt.prems] Opt.prems] Opt.prems show ?case
    by (simp add: samePos_append samePos_single)
next
  case (Group k a)
  from Group.IH [OF Group.prems]
  have "samePos (run ml s (erase a) x)
          (map (\<lambda>z. St (pos z) ((caps z)(k \<mapsto> (pos y, pos z)))) (run ml s a y))"
    unfolding samePos_def by (simp add: list_all2_map2)
  then show ?case by simp
next
  case (Look a)
  from Look.IH [OF Look.prems] Look.prems show ?case
    by (cases "run ml s (erase a) x"; cases "run ml s a y") (simp_all add: samePos_def)
next
  case (NegLook a)
  from NegLook.IH [OF NegLook.prems] NegLook.prems show ?case
    by (cases "run ml s (erase a) x"; cases "run ml s a y") (simp_all add: samePos_def)
next
  case Bol
  then show ?case by (simp add: samePos_def)
next
  case Eol
  then show ?case by (simp add: samePos_def)
qed

lemma run_erase_empty:
  "run ml s (erase r) (St i c) = [] \<longleftrightarrow> run ml s r (St i c') = []"
  by (rule samePos_empty [OF run_erase]) simp

text \<open>A match of a sequence starts with a match of each of its prefixes.\<close>

lemma run_seqs_prefix:
  "run ml s (seqs as) x = [] \<Longrightarrow> run ml s (seqs (as @ bs)) x = []"
proof (induction as arbitrary: x)
  case Nil
  then show ?case by (simp add: seqs_simps)
next
  case (Cons a as)
  from Cons.prems have "\<And>z. z \<in> set (run ml s a x) \<Longrightarrow> run ml s (seqs as) z = []"
    by (simp add: seqs_simps)
  with Cons.IH show ?case by (simp add: seqs_simps)
qed

section \<open>The fallback of generateSuggestion\<close>

lemma matchAll_empty: "matchAll ml r s = [] \<longleftrightarrow> regexExec ml r s 0 = None"
proof (cases "regexExec ml r s 0")
  case None
  then show ?thesis by (simp add: matchAll_def matchAllFrom_None)
next
  case (Some m)
  then show ?thesis by (simp add: matchAll_def matchAllFrom_Some)
qed

lemma matchAll_empty_iff:
  "matchAll ml r s = [] \<longleftrightarrow> (\<forall>j. j \<le> length s \<longrightarrow> run ml s r (St j Map.empty) = [])"
  by (simp add: matchAll_empty regexExec_None)

lemma erase_pyFuncRegex:
  "erase pyFuncRegex = seqs [lit ''def'', Plus ws, ident, Star ws, Chr 40, notParen, Chr 41]"
  by (simp add: pattern_defs)

lemma docstringRegex_prefix:
  "docstringRegex =
     seqs ([lit ''def'', Plus ws, ident, Star ws, Chr 40, notParen, Chr 41]
           @ [Star ws, Chr 58, Star ws, Plus (Seq (Chr 10) (Star ws)),
              NegLook (seqs [Chr 34, Chr 34, Chr 34])])"
  by (simp add: docstringRegex_def)

lemma longFuncRegex_prefix:
  "longFuncRegex =
     seqs ([lit ''def'', Plus ws, ident, Star ws, Chr 40, notParen, Chr 41]
           @ [Chr 58, Star ws, Group 1 (LazyStar (Class [Space, NonSpace])), Chr 10,
              Look (Alt (lit ''def '') Eol)])"
  by (simp add: longFuncRegex_def)

text \<open>
  The docstring check and the long-function check start with the pattern of the Python
  pass: where that pattern finds nothing, they find nothing.
\<close>

lemma no_python_function:
  assumes "matchAll False pyFuncRegex code = []"
  shows "matchAll False docstringRegex code = []" "matchAll False longFuncRegex code = []"
proof -
  have header: "run False code (seqs [lit ''def'', Plus ws, ident, Star ws, Chr 40, notParen, Chr 41])
                  (St j Map.empty) = []" if "j \<le> length code" for j
  proof -
    from assms that have "run False code pyFuncRegex (St j Map.empty) = []"
      by (simp add: matchAll_empty_iff)
    then have "run False code (erase pyFuncRegex) (St j Map.empty) = []"
      by (simp add: run_erase_empty [of False code pyFuncRegex j Map.empty Map.empty])
    then show ?thesis by (simp add: erase_pyFuncRegex)
  qed
  show "matchAll False docstringRegex code = []"
    unfolding matchAll_empty_iff docstringRegex_prefix
    using header run_seqs_prefix by blast
  show "matchAll False longFuncRegex code = []"
    unfolding matchAll_empty_iff longFuncRegex_prefix
    using header run_seqs_prefix by blast
qed

lemma explFunctions_empty:
  assumes "explFunctions code = Some (Inr [])"
  shows "matchAll False pyFuncRegex code = []"
proof -
  from explFunctions_passes [of code] assms obtain ps where
    "ps = []" "map Inr ps = map (pushFunc Python) (matchAll False pyFuncRegex code)"
    by auto
  then show ?thesis by simp
qed

lemma advice_distinct:
  "docstringAdvice \<noteq> declarationAdvice" "docstringAdvice \<noteq> longFunctionAdvice"
  "declarationAdvice \<noteq> longFunctionAdvice" "namingAdvice \<noteq> declarationAdvice"
  "errorHandlingAdvice \<noteq> declarationAdvice" "namingAdvice \<noteq> docstringAdvice"
  "errorHandlingAdvice \<noteq> docstringAdvice" "namingAdvice \<noteq> longFunctionAdvice"
  "errorHandlingAdvice \<noteq> longFunctionAdvice" "namingAdvice \<noteq> errorHandlingAdvice"
  by (simp_all add: docstringAdvice_def declarationAdvice_def longFunctionAdvice_def
      namingAdvice_def errorHandlingAdvice_def str_def)

text \<open>
  C5, as the code has it. When the text holds no function-definition shape and the
  undeclared-assignment check flags no line, generateSuggestion yields the two generic
  advisories, the naming reminder and then the error-handling reminder, and nothing else.
\<close>

theorem fallback_advice:
  assumes "explFunctions code = Some (Inr [])" "undeclaredJS code = []"
  shows "suggestions code = Inr [namingAdvice, errorHandlingAdvice]
       \<and> generateSuggestion code = Inr (namingAdvice @ str '' '' @ errorHandlingAdvice)"
proof -
  from no_python_function [OF explFunctions_empty [OF assms(1)]]
  have "pyFuncs code = []" "longFuncs code = Inr []"
    by (simp_all add: pyFuncs_def longFuncs_def)
  with assms(2) have "suggestions code = Inr [namingAdvice, errorHandlingAdvice]"
    by (simp add: suggestions_def)
  then show ?thesis by (simp add: generateSuggestion_def)
qed

theorem fallback_advice_witness:
  "explFunctions (str ''print(1)'') = Some (Inr []) \<and> undeclaredJS (str ''print(1)'') = []
   \<and> suggestions (str ''print(1)'') = Inr [namingAdvice, errorHandlingAdvice]
   \<and> generateSuggestion (str ''print(1)'') = Inr (namingAdvice @ str '' '' @ errorHandlingAdvice)"
proof -
  have a: "explFunctions (str ''print(1)'') = Some (Inr [])" by code_simp
  have b: "undeclaredJS (str ''print(1)'') = []" by code_simp
  from fallback_advice [OF a b] a b show ?thesis by simp
qed

text \<open>
  C5 as the specification states it fails: \<^verbatim>\<open>x = 1\<close> holds no function-definition shape,
  and generateSuggestion yields the declaration reminder, not the two generic advisories.
\<close>

theorem fallback_advice_counterexample:
  "explFunctions (str ''x = 1'') = Some (Inr [])
   \<and> suggestions (str ''x = 1'') = Inr [declarationAdvice]
   \<and> suggestions (str ''x = 1'') \<noteq> Inr [namingAdvice, errorHandlingAdvice]"
proof -
  have a: "explFunctions (str ''x = 1'') = Some (Inr [])" by code_simp
  have b: "suggestions (str ''x = 1'') = Inr [declarationAdvice]" by code_simp
  from a b show ?thesis by simp
qed

section \<open>The undeclared-assignment check\<close>

lemma run_lit:
  "run ml s (lit cs) x =
     (if take (length cs) (drop (pos x) s) = str cs then [St (pos x + length cs) (caps x)] else [])"
proof (induction cs arbitrary: x)
  case Nil
  then show ?case by (simp add: lit_simps str_def)
next
  case (Cons c cs)
  show ?case
  proof (cases "pos x < length s \<and> s ! pos x = of_char c")
    case True
    then have "drop (pos x) s = of_char c # drop (Suc (pos x)) s"
      by (metis Cons_nth_drop_Suc)
    with True Cons.IH [of "St (Suc (pos x)) (caps x)"] show ?thesis
      by (simp add: lit_simps step_def str_def)
  next
    case False
    have "take (Suc (length cs)) (drop (pos x) s) \<noteq> of_char c # str cs"
    proof
      assume "take (Suc (length cs)) (drop (pos x) s) = of_char c # str cs"
      then obtain l where d: "drop (pos x) s = of_char c # l"
        by (cases "drop (pos x) s") auto
      then have lt: "pos x < length s"
        by (metis drop_all list.distinct(1) not_le)
      from hd_drop_conv_nth [OF lt] d have "s ! pos x = of_char c" by simp
      with lt False show False by simp
    qed
    with False show ?thesis
      by (auto simp: lit_simps step_def str_def)
  qed
qed

lemma greedy_nonempty: "greedy m n x \<noteq> []"
  by (cases n) simp_all

lemma run_Plus_empty: "run ml s (Plus a) x = [] \<longleftrightarrow> run ml s a x = []"
  by (cases "run ml s a x") (simp_all add: greedyFrom_def greedy_nonempty)

lemma run_ws_empty: "run ml s ws x = [] \<longleftrightarrow> \<not> (pos x < length s \<and> isSpace (s ! pos x))"
  by (simp add: ws_def step_def)

text \<open>A string occurs in a text, followed by a given code unit.\<close>

lemma sublist_at:
  "sublist (w @ [c]) s \<longleftrightarrow>
     (\<exists>j. take (length w) (drop j s) = w \<and> j + length w < length s \<and> s ! (j + length w) = c)"
proof
  assume "sublist (w @ [c]) s"
  then obtain ps ss where s: "s = ps @ (w @ [c]) @ ss"
    by (auto simp: sublist_def)
  then have "take (length w) (drop (length ps) s) = w" "length ps + length w < length s"
    "s ! (length ps + length w) = c"
    by (simp_all add: nth_append)
  then show "\<exists>j. take (length w) (drop j s) = w \<and> j + length w < length s \<and> s ! (j + length w) = c"
    by blast
next
  assume "\<exists>j. take (length w) (drop j s) = w \<and> j + length w < length s \<and> s ! (j + length w) = c"
  then obtain j where j: "take (length w) (drop j s) = w" "j + length w < length s"
    "s ! (j + length w) = c"
    by blast
  have "s = take j s @ drop j s" by simp
  also have "drop j s = take (length w) (drop j s) @ drop (length w) (drop j s)"
    by (rule append_take_drop_id [symmetric])
  also have "drop (length w) (drop j s) = drop (j + length w) s" by (simp add: add.commute)
  also have "drop (j + length w) s = c # drop (Suc (j + length w)) s"
    using j(2,3) by (metis Cons_nth_drop_Suc)
  finally have "s = take j s @ (w @ [c]) @ drop (Suc (j + length w)) s"
    using j(1) by simp
  then show "sublist (w @ [c]) s"
    unfolding sublist_def by blast
qed

lemma in_run_lit:
  "z \<in> set (run ml s (lit cs) x) \<longleftrightarrow>
     take (length cs) (drop (pos x) s) = str cs \<and> z = St (pos x + length cs) (caps x)"
  unfolding run_lit by (cases "take (length cs) (drop (pos x) s) = str cs") simp_all

lemma bex_run_lit:
  "(\<exists>y \<in> set (run ml s (lit cs) x). P (pos y)) \<longleftrightarrow>
     take (length cs) (drop (pos x) s) = str cs \<and> P (pos x + length cs)"
  by (auto simp: in_run_lit)

lemma run_Seq_nonempty:
  "run ml s (Seq a b) x \<noteq> [] \<longleftrightarrow> (\<exists>z \<in> set (run ml s a x). run ml s b z \<noteq> [])"
  by simp

lemma run_declRegex:
  "run ml s declRegex (St j cp) \<noteq> [] \<longleftrightarrow>
     (\<exists>kw \<in> {str ''const'', str ''let'', str ''var''}.
        take (length kw) (drop j s) = kw \<and> j + length kw < length s
        \<and> isSpace (s ! (j + length kw)))"
proof -
  let ?A = "Alt (lit ''const'') (Alt (lit ''let'') (lit ''var''))"
  let ?T = "Seq (Plus ws) Empty"
  have tail: "run ml s ?T z \<noteq> [] \<longleftrightarrow> pos z < length s \<and> isSpace (s ! pos z)" for z
  proof (cases "run ml s (Plus ws) z")
    case Nil
    then show ?thesis using run_Plus_empty [of ml s ws z] run_ws_empty [of ml s z] by simp
  next
    case (Cons a as)
    then show ?thesis using run_Plus_empty [of ml s ws z] run_ws_empty [of ml s z] by simp
  qed
  have len: "length (str cs) = length cs" for cs
    by (simp add: str_def)
  have "run ml s declRegex (St j cp) \<noteq> [] \<longleftrightarrow>
          (\<exists>z \<in> set (run ml s (Group 1 ?A) (St j cp)). run ml s ?T z \<noteq> [])"
    unfolding declRegex_def seqs_simps by (simp only: run_Seq_nonempty)
  also have "\<dots> \<longleftrightarrow>
          (\<exists>z \<in> set (run ml s (Group 1 ?A) (St j cp)). pos z < length s \<and> isSpace (s ! pos z))"
    by (simp only: tail)
  also have "\<dots> \<longleftrightarrow>
          (\<exists>y \<in> set (run ml s ?A (St j cp)). pos y < length s \<and> isSpace (s ! pos y))"
    by (simp add: bex_Un)
  also have "\<dots> \<longleftrightarrow>
          (\<exists>kw \<in> {str ''const'', str ''let'', str ''var''}.
             take (length kw) (drop j s) = kw \<and> j + length kw < length s
             \<and> isSpace (s ! (j + length kw)))"
    by (simp only: run.simps(7) set_append bex_Un mstate.sel len bex_simps
        bex_run_lit [where P = "\<lambda>p. p < length s \<and> isSpace (s ! p)"]) blast
  finally show ?thesis .
qed

lemma regexTest_declRegex: "regexTest False declRegex line \<longleftrightarrow> keywordThenSpace line"
proof -
  have "regexTest False declRegex line \<longleftrightarrow>
          (\<exists>j. j \<le> length line \<and> run False line declRegex (St j Map.empty) \<noteq> [])"
    by (simp add: regexTest_def regexExec_None)
  also have "\<dots> \<longleftrightarrow> (\<exists>kw \<in> {str ''const'', str ''let'', str ''var''}.
        \<exists>j. take (length kw) (drop j line) = kw \<and> j + length kw < length line
        \<and> isSpace (line ! (j + length kw)))"
  proof -
    have "j \<le> length line" if "j + length kw < length line" for j and kw :: jsstring
      using that by simp
    then show ?thesis unfolding run_declRegex by blast
  qed
  also have "\<dots> \<longleftrightarrow> keywordThenSpace line"
    unfolding keywordThenSpace_def sublist_at by blast
  finally show ?thesis .
qed

text \<open>The keyword test over the code units of the line, for evaluation.\<close>

lemma keywordThenSpace_code [code]:
  "keywordThenSpace line =
     (\<exists>kw \<in> {str ''const'', str ''let'', str ''var''}.
        \<exists>c \<in> set line. isSpace c \<and> sublist (kw @ [c]) line)"
proof -
  have "c \<in> set line" if "sublist (kw @ [c]) line" for kw c
    using that by (auto simp: sublist_def)
  then show ?thesis unfolding keywordThenSpace_def by blast
qed

subsection \<open>What the assignment pattern eats\<close>

text \<open>
  The matches of a pattern from a position, said on the rest of the text: a class eats one
  code unit, a starred class every prefix of its code units, a sequence what its parts eat
  one after the other.
\<close>

lemma advance_simps: "advance x [] = x" "advance (advance x u) v = advance x (u @ v)" "pos (advance x u) = pos x + length u"
  "caps (advance x u) = caps x"
  by (simp_all add: advance_def)

lemma restIs_advance: "restIs s x (u @ t') \<Longrightarrow> restIs s (advance x u) t'"
proof -
  assume a: "restIs s x (u @ t')"
  then have "length s - pos x = length u + length t'"
    by (metis restIs_def length_append length_drop)
  moreover from a have "drop (pos x + length u) s = drop (length u) (u @ t')"
    by (simp add: restIs_def add.commute flip: drop_drop)
  moreover from a have "pos x \<le> length s" by (simp add: restIs_def)
  ultimately have "pos x + length u \<le> length s \<and> drop (pos x + length u) s = t'"
    by simp
  then show ?thesis by (simp add: restIs_def advance_def)
qed

lemma restIs_Cons: "restIs s x (c # t') \<Longrightarrow> pos x < length s \<and> s ! pos x = c"
proof -
  assume a: "restIs s x (c # t')"
  then have lt: "pos x < length s"
    by (metis restIs_def drop_all list.distinct(1) not_le)
  from hd_drop_conv_nth [OF lt] a show ?thesis using lt by (simp add: restIs_def)
qed

lemma restIs_Nil: "restIs s x [] \<Longrightarrow> pos x = length s"
  by (simp add: restIs_def)

lemma step_at:
  assumes "restIs s x t"
  shows "y \<in> set (step P s x) \<longleftrightarrow> (\<exists>c t'. t = c # t' \<and> P c \<and> y = advance x [c])"
proof (cases t)
  case Nil
  with assms have "pos x = length s" by (intro restIs_Nil) simp
  then show ?thesis unfolding Nil by (simp add: step_def)
next
  case (Cons c t')
  with assms have "pos x < length s \<and> s ! pos x = c" by (intro restIs_Cons) simp
  then have "step P s x = (if P c then [advance x [c]] else [])"
    by (simp add: step_def advance_def)
  then show ?thesis unfolding Cons by (cases "P c") auto
qed

lemma greedy_at:
  "restIs s x t \<Longrightarrow>
     y \<in> set (greedy (step P s) n x)
       \<longleftrightarrow> (\<exists>u t'. t = u @ t' \<and> length u \<le> n \<and> list_all P u \<and> y = advance x u)"
proof (induction n arbitrary: x t)
  case 0
  then show ?case by (auto simp: advance_simps)
next
  case (Suc n)
  show ?case
  proof
    assume "y \<in> set (greedy (step P s) (Suc n) x)"
    then consider "y = x"
      | z where "z \<in> set (step P s x)" "y \<in> set (greedy (step P s) n z)"
      unfolding in_greedy_Suc by blast
    then show "\<exists>u t'. t = u @ t' \<and> length u \<le> Suc n \<and> list_all P u \<and> y = advance x u"
    proof cases
      case 1
      then have "t = [] @ t \<and> length ([] :: jsstring) \<le> Suc n \<and> list_all P [] \<and> y = advance x []"
        by (simp add: advance_simps)
      then show ?thesis by blast
    next
      case 2
      from 2(1) step_at [OF Suc.prems] obtain c t1 where
        c: "t = c # t1" "P c" "z = advance x [c]" by blast
      from Suc.prems c have "restIs s z t1" using restIs_advance [of s x "[c]" t1] by simp
      from Suc.IH [OF this] 2(2) obtain u t' where
        u: "t1 = u @ t'" "length u \<le> n" "list_all P u" "y = advance z u" by blast
      with c have "t = (c # u) @ t' \<and> length (c # u) \<le> Suc n \<and> list_all P (c # u)
          \<and> y = advance x (c # u)"
        by (simp add: advance_simps)
      then show ?thesis by blast
    qed
  next
    assume "\<exists>u t'. t = u @ t' \<and> length u \<le> Suc n \<and> list_all P u \<and> y = advance x u"
    then obtain u t' where u: "t = u @ t'" "length u \<le> Suc n" "list_all P u" "y = advance x u"
      by blast
    show "y \<in> set (greedy (step P s) (Suc n) x)"
    proof (cases u)
      case Nil
      with u show ?thesis by (simp add: advance_simps)
    next
      case (Cons c u')
      let ?z = "advance x [c]"
      from Cons u have z: "?z \<in> set (step P s x)"
        using step_at [OF Suc.prems, of ?z P] by simp
      from Suc.prems Cons u have "restIs s ?z (u' @ t')" using restIs_advance [of s x "[c]" "u' @ t'"] by simp
      from Suc.IH [OF this] Cons u have "y \<in> set (greedy (step P s) n ?z)"
        by (auto simp: advance_simps)
      moreover have "pos ?z \<noteq> pos x" by (simp add: advance_simps)
      ultimately show ?thesis unfolding in_greedy_Suc using z by blast
    qed
  qed
qed

lemma greedyFrom_at:
  assumes "restIs s x t"
  shows "y \<in> set (greedyFrom (step P s) s x) \<longleftrightarrow> (\<exists>u t'. t = u @ t' \<and> list_all P u \<and> y = advance x u)"
proof -
  from assms have len: "length t = length s - pos x"
    by (auto simp: restIs_def)
  have "length u \<le> length s - pos x" if "t = u @ t'" for u t'
    using that len by simp
  then show ?thesis
    unfolding greedyFrom_def greedy_at [OF assms] by blast
qed

lemma eats_step:
  assumes "\<And>x. run ml s r x = step P s x"
  shows "eats ml s r (\<lambda>u t'. \<exists>c. u = [c] \<and> P c)"
  unfolding eats_def
proof (intro allI impI)
  fix x t y
  assume a: "restIs s x t"
  show "y \<in> set (run ml s r x) \<longleftrightarrow> (\<exists>u t'. t = u @ t' \<and> (\<exists>c. u = [c] \<and> P c) \<and> y = advance x u)"
    unfolding assms step_at [OF a]
  proof
    assume "\<exists>c t'. t = c # t' \<and> P c \<and> y = advance x [c]"
    then obtain c t' where "t = [c] @ t' \<and> (\<exists>d. [c] = [d] \<and> P d) \<and> y = advance x [c]"
      by auto
    then show "\<exists>u t'. t = u @ t' \<and> (\<exists>c. u = [c] \<and> P c) \<and> y = advance x u"
      by blast
  next
    assume "\<exists>u t'. t = u @ t' \<and> (\<exists>c. u = [c] \<and> P c) \<and> y = advance x u"
    then show "\<exists>c t'. t = c # t' \<and> P c \<and> y = advance x [c]"
      by auto
  qed
qed

lemma eats_Star:
  assumes "\<And>x. run ml s r x = step P s x"
  shows "eats ml s (Star r) (\<lambda>u t'. list_all P u)"
proof -
  from assms have "run ml s r = step P s" by (rule ext)
  then show ?thesis
    unfolding eats_def by (simp add: greedyFrom_at)
qed

lemma eats_Seq:
  assumes "eats ml s a P" "eats ml s b Q"
  shows "eats ml s (Seq a b) (\<lambda>u t'. \<exists>u1 u2. u = u1 @ u2 \<and> P u1 (u2 @ t') \<and> Q u2 t')"
  unfolding eats_def
proof (intro allI impI)
  fix x t y
  assume a: "restIs s x t"
  show "y \<in> set (run ml s (Seq a b) x)
      \<longleftrightarrow> (\<exists>u t'. t = u @ t' \<and> (\<exists>u1 u2. u = u1 @ u2 \<and> P u1 (u2 @ t') \<and> Q u2 t') \<and> y = advance x u)"
  proof
    assume "y \<in> set (run ml s (Seq a b) x)"
    then obtain z where z: "z \<in> set (run ml s a x)" "y \<in> set (run ml s b z)"
      unfolding in_run_Seq by blast
    from assms(1) a z(1) obtain u1 t1 where u1: "t = u1 @ t1" "P u1 t1" "z = advance x u1"
      unfolding eats_def by blast
    from a u1 have "restIs s z t1" using restIs_advance by blast
    with assms(2) z(2) obtain u2 t' where u2: "t1 = u2 @ t'" "Q u2 t'" "y = advance z u2"
      unfolding eats_def by blast
    from u1 u2 have "t = (u1 @ u2) @ t' \<and> (u1 @ u2 = u1 @ u2 \<and> P u1 (u2 @ t') \<and> Q u2 t')
        \<and> y = advance x (u1 @ u2)"
      by (simp add: advance_simps)
    then show "\<exists>u t'. t = u @ t' \<and> (\<exists>u1 u2. u = u1 @ u2 \<and> P u1 (u2 @ t') \<and> Q u2 t') \<and> y = advance x u"
      by blast
  next
    assume "\<exists>u t'. t = u @ t' \<and> (\<exists>u1 u2. u = u1 @ u2 \<and> P u1 (u2 @ t') \<and> Q u2 t') \<and> y = advance x u"
    then obtain u1 u2 t' where u: "t = (u1 @ u2) @ t'" "P u1 (u2 @ t')" "Q u2 t'" "y = advance x (u1 @ u2)"
      by blast
    let ?z = "advance x u1"
    from assms(1) a u(1,2) have z: "?z \<in> set (run ml s a x)"
      unfolding eats_def by (metis append.assoc)
    from a u(1) have "restIs s ?z (u2 @ t')" using restIs_advance [of s x u1 "u2 @ t'"] by simp
    with assms(2) u(3) have "advance ?z u2 \<in> set (run ml s b ?z)"
      unfolding eats_def by blast
    with u(4) z show "y \<in> set (run ml s (Seq a b) x)"
      unfolding in_run_Seq by (auto simp: advance_simps)
  qed
qed

lemma eats_Plus:
  assumes "\<And>x. run ml s r x = step P s x"
  shows "eats ml s (Plus r) (\<lambda>u t'. u \<noteq> [] \<and> list_all P u)"
proof -
  have "eats ml s (Seq r (Star r)) (\<lambda>u t'. \<exists>u1 u2. u = u1 @ u2 \<and> (\<exists>c. u1 = [c] \<and> P c) \<and> list_all P u2)"
    using eats_step [OF assms] eats_Star [OF assms] by (rule eats_Seq)
  moreover have "(\<exists>u1 u2. u = u1 @ u2 \<and> (\<exists>c. u1 = [c] \<and> P c) \<and> list_all P u2)
      \<longleftrightarrow> u \<noteq> [] \<and> list_all P u" for u
  proof (cases u)
    case Nil
    then show ?thesis by simp
  next
    case (Cons c u')
    have "(\<exists>u1 u2. c # u' = u1 @ u2 \<and> (\<exists>d. u1 = [d] \<and> P d) \<and> list_all P u2)
        \<longleftrightarrow> P c \<and> list_all P u'"
    proof
      assume "P c \<and> list_all P u'"
      then have "c # u' = [c] @ u' \<and> (\<exists>d. [c] = [d] \<and> P d) \<and> list_all P u'" by simp
      then show "\<exists>u1 u2. c # u' = u1 @ u2 \<and> (\<exists>d. u1 = [d] \<and> P d) \<and> list_all P u2" by blast
    qed auto
    then show ?thesis unfolding Cons by simp
  qed
  ultimately show ?thesis
    unfolding eats_def by (simp only: run_Plus_unfold)
qed

lemma eats_Eol: "eats True s Eol (\<lambda>u t'. u = [] \<and> (t' = [] \<or> isLineTerminator (hd t')))"
  unfolding eats_def
proof (intro allI impI)
  fix x t y
  assume a: "restIs s x t"
  show "y \<in> set (run True s Eol x)
      \<longleftrightarrow> (\<exists>u t'. t = u @ t' \<and> (u = [] \<and> (t' = [] \<or> isLineTerminator (hd t'))) \<and> y = advance x u)"
  proof (cases t)
    case Nil
    with a have "pos x = length s" by (intro restIs_Nil) simp
    then show ?thesis unfolding Nil by (auto simp: advance_simps)
  next
    case (Cons c t')
    with a have "pos x < length s \<and> s ! pos x = c" by (intro restIs_Cons) simp
    then have "run True s Eol x = (if isLineTerminator c then [x] else [])"
      by simp
    then show ?thesis unfolding Cons by (cases "isLineTerminator c") (auto simp: advance_simps)
  qed
qed

lemma eats_Empty: "eats ml s Empty (\<lambda>u t'. u = [])"
  unfolding eats_def by (auto simp: advance_simps)

text \<open>The classes of the assignment pattern, and the pattern itself.\<close>

lemma char_facts:
  "isBlank c \<Longrightarrow> \<not> isLineTerminator c"
  "isBlank c \<Longrightarrow> \<not> isIdentStart c"
  "isIdentStart c \<Longrightarrow> \<not> isLineTerminator c"
  "isIdentPart c \<Longrightarrow> \<not> isLineTerminator c"
  "isSpace c \<Longrightarrow> \<not> isIdentPart c"
  "\<not> isIdentPart 61" "\<not> isSpace 61" "\<not> isLineTerminator 61"
  by (auto simp: isBlank_def isIdentStart_def isIdentPart_def isSpace_def isLineTerminator_def)

lemma eats_cong: "eats ml s r P \<Longrightarrow> (\<And>u t'. P u t' \<longleftrightarrow> Q u t') \<Longrightarrow> eats ml s r Q"
  by (simp add: eats_def)

lemma class_blank: "(\<lambda>c. \<exists>a \<in> set [Lit 32, Lit 9]. atomHas a c) = isBlank"
  by (rule ext) (auto simp: isBlank_def)

lemma class_identStart: "(\<lambda>c. \<exists>a \<in> set [Range 65 90, Range 97 122, Lit 95]. atomHas a c) = isIdentStart"
  by (rule ext) (auto simp: isIdentStart_def)

lemma class_identPart:
  "(\<lambda>c. \<exists>a \<in> set [Range 65 90, Range 97 122, Range 48 57, Lit 95]. atomHas a c) = isIdentPart"
  by (rule ext) (auto simp: isIdentPart_def isIdentStart_def)

lemma class_space: "(\<lambda>c. \<exists>a \<in> set [Space]. atomHas a c) = isSpace"
  by (rule ext) simp

lemma eats_Seq_step:
  assumes "\<And>x. run ml s r x = step P s x" "eats ml s b Q"
  shows "eats ml s (Seq r b) (\<lambda>u t'. \<exists>c v. u = c # v \<and> P c \<and> Q v t')"
proof (rule eats_cong [OF eats_Seq [OF eats_step [OF assms(1)] assms(2)]])
  fix u t'
  show "(\<exists>u1 u2. u = u1 @ u2 \<and> (\<exists>c. u1 = [c] \<and> P c) \<and> Q u2 t')
      \<longleftrightarrow> (\<exists>c v. u = c # v \<and> P c \<and> Q v t')"
  proof
    assume "\<exists>c v. u = c # v \<and> P c \<and> Q v t'"
    then obtain c v where "u = [c] @ v \<and> (\<exists>d. [c] = [d] \<and> P d) \<and> Q v t'" by auto
    then show "\<exists>u1 u2. u = u1 @ u2 \<and> (\<exists>c. u1 = [c] \<and> P c) \<and> Q u2 t'" by blast
  qed auto
qed

lemma run_classes:
  "run ml s (Class [Lit 32, Lit 9]) x = step isBlank s x"
  "run ml s (Class [Range 65 90, Range 97 122, Lit 95]) x = step isIdentStart s x"
  "run ml s (Class [Range 65 90, Range 97 122, Range 48 57, Lit 95]) x = step isIdentPart s x"
  "run ml s ws x = step isSpace s x"
  unfolding ws_def
  by (simp_all only: run.simps class_blank class_identStart class_identPart class_space)

lemma erase_assignRegex: "erase assignRegex = Seq Bol assignTail"
  by (simp add: assignTail_def pattern_defs)

lemma eats_assignTail:
  "eats True s assignTail
     (\<lambda>u t'. (\<exists>b c n w d. assignParts u b c n w d) \<and> (t' = [] \<or> isLineTerminator (hd t')))"
proof -
  let ?E = "\<lambda>t' :: jsstring. t' = [] \<or> isLineTerminator (hd t')"
  let ?ND = "\<lambda>c. \<not> isLineTerminator c"
  have e6: "eats True s (seqs [Eol]) (\<lambda>u t'. u = [] \<and> ?E t')"
    unfolding seqs_simps
    by (rule eats_cong [OF eats_Seq [OF eats_Eol eats_Empty]]) auto
  have e5: "eats True s (seqs [Plus Dot, Eol]) (\<lambda>u t'. u \<noteq> [] \<and> list_all ?ND u \<and> ?E t')"
    unfolding seqs_simps
    by (rule eats_cong [OF eats_Seq [OF eats_Plus [of True s Dot ?ND] e6 [unfolded seqs_simps]]]) auto
  have e4: "eats True s (seqs [Chr 61, Plus Dot, Eol])
      (\<lambda>u t'. \<exists>d. u = 61 # d \<and> d \<noteq> [] \<and> list_all ?ND d \<and> ?E t')"
    unfolding seqs_simps
    by (rule eats_cong [OF eats_Seq [OF eats_step [of True s "Chr 61" "\<lambda>c. c = 61"]
          e5 [unfolded seqs_simps]]]) auto
  have e3: "eats True s (seqs [Star ws, Chr 61, Plus Dot, Eol])
      (\<lambda>u t'. \<exists>w d. u = w @ 61 # d \<and> list_all isSpace w \<and> d \<noteq> [] \<and> list_all ?ND d \<and> ?E t')"
    unfolding seqs_simps
    by (rule eats_cong [OF eats_Seq [OF eats_Star [of True s ws isSpace] e4 [unfolded seqs_simps]]])
      (auto simp: run_classes)
  have ei: "eats True s (erase ident) (\<lambda>u t'. \<exists>c n. u = c # n \<and> isIdentStart c \<and> list_all isIdentPart n)"
    unfolding ident_def erase.simps
    by (rule eats_cong [OF eats_Seq_step [of True s _ isIdentStart, OF _
          eats_Star [of True s _ isIdentPart]]])
      (auto simp only: run_classes)
  have e2: "eats True s (seqs [erase ident, Star ws, Chr 61, Plus Dot, Eol])
      (\<lambda>u t'. \<exists>c n w d. u = c # n @ w @ 61 # d \<and> isIdentStart c \<and> list_all isIdentPart n
          \<and> list_all isSpace w \<and> d \<noteq> [] \<and> list_all ?ND d \<and> ?E t')"
    unfolding seqs_simps
  proof (rule eats_cong [OF eats_Seq [OF ei e3 [unfolded seqs_simps]]])
    fix u t'
    let ?L = "\<exists>u1 u2. u = u1 @ u2 \<and> (\<exists>c n. u1 = c # n \<and> isIdentStart c \<and> list_all isIdentPart n)
        \<and> (\<exists>w d. u2 = w @ 61 # d \<and> list_all isSpace w \<and> d \<noteq> [] \<and> list_all ?ND d \<and> ?E t')"
    let ?R = "\<exists>c n w d. u = c # n @ w @ 61 # d \<and> isIdentStart c \<and> list_all isIdentPart n
          \<and> list_all isSpace w \<and> d \<noteq> [] \<and> list_all ?ND d \<and> ?E t'"
    show "?L \<longleftrightarrow> ?R"
    proof
      assume ?L
      then obtain c n w d where "u = (c # n) @ (w @ 61 # d)" "isIdentStart c" "list_all isIdentPart n"
        "list_all isSpace w" "d \<noteq> []" "list_all ?ND d" "?E t'"
        by blast
      then have "u = c # n @ w @ 61 # d \<and> isIdentStart c \<and> list_all isIdentPart n
          \<and> list_all isSpace w \<and> d \<noteq> [] \<and> list_all ?ND d \<and> ?E t'"
        by simp
      then show ?R by blast
    next
      assume ?R
      then obtain c n w d where h: "u = c # n @ w @ 61 # d" "isIdentStart c" "list_all isIdentPart n"
        "list_all isSpace w" "d \<noteq> []" "list_all ?ND d" "?E t'"
        by blast
      then have "u = (c # n) @ (w @ 61 # d)" by simp
      with h(2-) show ?L by blast
    qed
  qed
  show ?thesis
    unfolding assignTail_def seqs_simps assignParts_def
  proof (rule eats_cong [OF eats_Seq [OF eats_Star [of True s _ isBlank] e2 [unfolded seqs_simps]]])
    show "run True s (Class [Lit 32, Lit 9]) x = step isBlank s x" for x
      by (rule run_classes)
  next
    fix u t'
    let ?L = "\<exists>u1 u2. u = u1 @ u2 \<and> list_all isBlank u1
        \<and> (\<exists>c n w d. u2 = c # n @ w @ 61 # d \<and> isIdentStart c \<and> list_all isIdentPart n
          \<and> list_all isSpace w \<and> d \<noteq> [] \<and> list_all ?ND d \<and> ?E t')"
    let ?R = "(\<exists>b c n w d. u = b @ c # n @ w @ 61 # d \<and> list_all isBlank b \<and> isIdentStart c
          \<and> list_all isIdentPart n \<and> list_all isSpace w \<and> d \<noteq> [] \<and> list_all ?ND d) \<and> ?E t'"
    show "?L \<longleftrightarrow> ?R" by blast
  qed
qed

subsection \<open>A match of the assignment pattern is a line of that shape\<close>

text \<open>
  Unless the whitespace before \<^verbatim>\<open>=\<close> holds a line terminator: then the text is an
  assignment broken across lines.
\<close>

lemma takeWhile_whole:
  "list_all P u \<Longrightarrow> t' = [] \<or> \<not> P (hd t') \<Longrightarrow> takeWhile P (u @ t') = u"
  by (cases t') (simp_all add: list_all_iff)

lemma dropWhile_past:
  "list_all P u \<Longrightarrow> dropWhile P (u @ v) = dropWhile P v"
  by (simp add: list_all_iff)

lemma dropWhile_stay:
  assumes "list_all Q w" "\<And>c. Q c \<Longrightarrow> \<not> P c" "\<not> P e"
  shows "dropWhile P (w @ e # d) = w @ e # d"
  using assms by (cases w) simp_all

lemma parts_nonterminator:
  assumes "assignParts u b c n w d" "list_all (\<lambda>c. \<not> isLineTerminator c) w"
  shows "list_all (\<lambda>c. \<not> isLineTerminator c) u"
proof -
  from assms(1) have "list_all (\<lambda>c. \<not> isLineTerminator c) b"
    "list_all (\<lambda>c. \<not> isLineTerminator c) n" "\<not> isLineTerminator c"
    "list_all (\<lambda>c. \<not> isLineTerminator c) d" "u = b @ c # n @ w @ 61 # d"
    unfolding assignParts_def list_all_iff using char_facts by blast+
  with assms(2) show ?thesis by (simp add: char_facts)
qed

lemma parts_shape:
  assumes "assignParts u b c n w d"
  shows "assignmentShape u"
proof -
  from assms have u: "u = b @ c # n @ w @ 61 # d" and b: "list_all isBlank b" and c: "isIdentStart c"
    and n: "list_all isIdentPart n" and w: "list_all isSpace w" and d: "d \<noteq> []"
    by (simp_all add: assignParts_def)
  from c have "\<not> isBlank c" using char_facts(2) by blast
  then have 1: "dropWhile isBlank u = c # n @ w @ 61 # d"
    unfolding u by (simp add: dropWhile_past [OF b])
  have "dropWhile isIdentPart (w @ 61 # d) = w @ 61 # d"
    using w char_facts(5) char_facts(6) by (rule dropWhile_stay)
  then have 2: "dropWhile isIdentPart (n @ w @ 61 # d) = w @ 61 # d"
    by (simp add: dropWhile_past [OF n])
  have 3: "dropWhile isSpace (w @ 61 # d) = 61 # d"
    by (simp add: dropWhile_past [OF w] char_facts)
  show ?thesis
    unfolding assignmentShape_def assignmentAfter_def 1 using c d by (simp add: 2 3)
qed

lemma takeWhile_upto:
  "list_all P w \<Longrightarrow> \<not> P e \<Longrightarrow> takeWhile P (w @ e # d) = w"
  by (simp add: list_all_iff)

lemma parts_crossing:
  assumes "assignParts u b c n w d" "\<not> list_all (\<lambda>c. \<not> isLineTerminator c) w"
  shows "brokenAssignment (u @ t')"
proof -
  from assms(1) have u: "u = b @ c # n @ w @ 61 # d" and b: "list_all isBlank b" and c: "isIdentStart c"
    and n: "list_all isIdentPart n" and w: "list_all isSpace w"
    by (simp_all add: assignParts_def)
  from c have "\<not> isBlank c" using char_facts(2) by blast
  then have 1: "dropWhile isBlank (u @ t') = c # n @ w @ 61 # d @ t'"
    unfolding u by (simp add: dropWhile_past [OF b])
  have "dropWhile isIdentPart (w @ 61 # d @ t') = w @ 61 # d @ t'"
    using w char_facts(5) char_facts(6) by (rule dropWhile_stay)
  then have 2: "dropWhile isIdentPart (n @ w @ 61 # d @ t') = w @ 61 # d @ t'"
    by (simp add: dropWhile_past [OF n])
  have 3: "dropWhile isSpace (w @ 61 # d @ t') = 61 # d @ t'"
    by (simp add: dropWhile_past [OF w] char_facts)
  have 4: "takeWhile isSpace (w @ 61 # d @ t') = w"
    using w char_facts(7) by (rule takeWhile_upto)
  from assms(2) have 5: "\<exists>x \<in> set w. isLineTerminator x"
    by (auto simp: list_all_iff)
  show ?thesis
    unfolding brokenAssignment_def 1 using c 5 by (simp add: 2 3 4)
qed

lemma shape_parts:
  assumes "assignmentShape line" "list_all (\<lambda>c. \<not> isLineTerminator c) line"
  shows "\<exists>b c n w d. assignParts line b c n w d"
proof -
  let ?b = "takeWhile isBlank line"
  from assms(1) obtain c cs where 1: "dropWhile isBlank line = c # cs" and c: "isIdentStart c"
    and r: "(case dropWhile isSpace (dropWhile isIdentPart cs) of [] \<Rightarrow> False
              | d # rest \<Rightarrow> d = 61 \<and> rest \<noteq> [])"
    by (auto simp: assignmentShape_def assignmentAfter_def split: list.splits)
  let ?n = "takeWhile isIdentPart cs"
  let ?r = "dropWhile isIdentPart cs"
  let ?w = "takeWhile isSpace ?r"
  from r obtain d where 2: "dropWhile isSpace ?r = 61 # d" and d: "d \<noteq> []"
    by (auto split: list.splits)
  have "line = ?b @ dropWhile isBlank line" by simp
  also have "\<dots> = ?b @ c # (?n @ ?r)" by (simp add: 1)
  also have "?r = ?w @ dropWhile isSpace ?r" by simp
  finally have line: "line = ?b @ c # ?n @ ?w @ 61 # d" by (simp add: 2)
  have "set d \<subseteq> set line" by (subst line) auto
  with assms(2) have "list_all (\<lambda>c. \<not> isLineTerminator c) d" by (auto simp: list_all_iff)
  moreover have "list_all isBlank ?b" "list_all isIdentPart ?n" "list_all isSpace ?w"
    by (auto simp: list_all_iff dest: set_takeWhileD)
  ultimately have "assignParts line ?b c ?n ?w d"
    unfolding assignParts_def using line c d by blast
  then show ?thesis by blast
qed

lemma lineAt_split:
  "p \<le> length s \<Longrightarrow> \<exists>t'. drop p s = lineAt s p @ t' \<and> (t' = [] \<or> isLineTerminator (hd t'))"
proof -
  let ?t' = "dropWhile (\<lambda>c. \<not> isLineTerminator c) (drop p s)"
  have "drop p s = lineAt s p @ ?t'" by (simp add: lineAt_def)
  moreover have "?t' = [] \<or> isLineTerminator (hd ?t')"
    using hd_dropWhile [of "\<lambda>c. \<not> isLineTerminator c" "drop p s"] by blast
  ultimately show ?thesis by blast
qed

lemma lineAt_nonterminator: "list_all (\<lambda>c. \<not> isLineTerminator c) (lineAt s p)"
  by (auto simp: lineAt_def list_all_iff dest: set_takeWhileD)

lemma in_run_erase_assign:
  assumes "p \<le> length s"
  shows "y \<in> set (run True s (erase assignRegex) (St p c)) \<longleftrightarrow>
     lineStart s p \<and> (\<exists>u t'. drop p s = u @ t' \<and> (\<exists>b c n w d. assignParts u b c n w d)
        \<and> (t' = [] \<or> isLineTerminator (hd t')) \<and> y = St (p + length u) c)"
proof -
  from assms have rs: "restIs s (St p c) (drop p s)" by (simp add: restIs_def)
  have "y \<in> set (run True s assignTail (St p c)) \<longleftrightarrow>
     (\<exists>u t'. drop p s = u @ t' \<and> ((\<exists>b c n w d. assignParts u b c n w d)
        \<and> (t' = [] \<or> isLineTerminator (hd t'))) \<and> y = advance (St p c) u)"
    using eats_assignTail [of s] rs unfolding eats_def by blast
  then show ?thesis
    using assms by (auto simp: erase_assignRegex lineStart_def advance_def)
qed

lemma run_head_erase:
  assumes "run ml s r (St p Map.empty) = y # ys"
  shows "\<exists>y'. y' \<in> set (run ml s (erase r) (St p Map.empty)) \<and> pos y' = pos y"
proof -
  have "samePos (run ml s (erase r) (St p Map.empty)) (run ml s r (St p Map.empty))"
    by (rule run_erase) simp
  with assms show ?thesis
    unfolding samePos_def by (cases "run ml s (erase r) (St p Map.empty)") auto
qed

lemma assign_sound:
  assumes H: "\<not> assignmentAcrossLines s" and p: "p \<le> length s"
    and r: "run True s assignRegex (St p Map.empty) = y # ys"
  shows "lineStart s p \<and> assignmentShape (lineAt s p) \<and> substring s p (pos y) = lineAt s p
     \<and> pos y = p + length (lineAt s p)"
proof -
  from run_head_erase [OF r] obtain y' where
    y': "y' \<in> set (run True s (erase assignRegex) (St p Map.empty))" "pos y' = pos y" by blast
  from y'(1) have "lineStart s p \<and> (\<exists>u t'. drop p s = u @ t' \<and> (\<exists>b c n w d. assignParts u b c n w d)
        \<and> (t' = [] \<or> isLineTerminator (hd t')) \<and> y' = St (p + length u) Map.empty)"
    unfolding in_run_erase_assign [OF p] .
  then obtain u t' b c n w d where
    ls: "lineStart s p" and t: "drop p s = u @ t'" and parts: "assignParts u b c n w d"
    and e: "t' = [] \<or> isLineTerminator (hd t')" and yy: "y' = St (p + length u) Map.empty"
    by (elim conjE exE)
  have w: "list_all (\<lambda>c. \<not> isLineTerminator c) w"
  proof (rule ccontr)
    assume "\<not> list_all (\<lambda>c. \<not> isLineTerminator c) w"
    from parts_crossing [OF parts this, of t'] have "brokenAssignment (drop p s)"
      by (simp only: t)
    moreover from p have "p \<in> set [0 ..< Suc (length s)]" by auto
    ultimately have "assignmentAcrossLines s"
      unfolding assignmentAcrossLines_def using ls by blast
    with H show False by simp
  qed
  from parts_nonterminator [OF parts w] e have "takeWhile (\<lambda>c. \<not> isLineTerminator c) (u @ t') = u"
    by (intro takeWhile_whole) simp_all
  with t have line: "lineAt s p = u" by (simp add: lineAt_def)
  from yy y'(2) have pos: "pos y = p + length u" by simp
  then have "substring s p (pos y) = u" by (simp add: substring_def t)
  with ls parts_shape [OF parts] line pos show ?thesis by simp
qed

lemma assign_complete:
  assumes "lineStart s p" "assignmentShape (lineAt s p)"
  shows "run True s assignRegex (St p Map.empty) \<noteq> []"
proof -
  from assms(1) have p: "p \<le> length s" by (simp add: lineStart_def)
  from lineAt_split [OF p] obtain t' where
    t: "drop p s = lineAt s p @ t'" "t' = [] \<or> isLineTerminator (hd t')" by blast
  from shape_parts [OF assms(2) lineAt_nonterminator] obtain b c n w d where
    "assignParts (lineAt s p) b c n w d" by blast
  with t have body: "drop p s = lineAt s p @ t' \<and> (\<exists>b c n w d. assignParts (lineAt s p) b c n w d)
        \<and> (t' = [] \<or> isLineTerminator (hd t'))
        \<and> St (p + length (lineAt s p)) Map.empty = St (p + length (lineAt s p)) Map.empty"
    by blast
  have "\<exists>u t'. drop p s = u @ t' \<and> (\<exists>b c n w d. assignParts u b c n w d)
        \<and> (t' = [] \<or> isLineTerminator (hd t'))
        \<and> St (p + length (lineAt s p)) Map.empty = St (p + length u) Map.empty"
    by (rule exI [where x = "lineAt s p"], rule exI [where x = t'], rule body)
  with assms(1) have "St (p + length (lineAt s p)) Map.empty
      \<in> set (run True s (erase assignRegex) (St p Map.empty))"
    unfolding in_run_erase_assign [OF p] by (rule conjI)
  then have "run True s (erase assignRegex) (St p Map.empty) \<noteq> []" by auto
  then show ?thesis using run_erase_empty [of True s assignRegex p Map.empty Map.empty] by simp
qed

subsection \<open>Every line of that shape is found\<close>

text \<open>
  \<^verbatim>\<open>exec\<close> skips no position at which the pattern matches, so every such position lies in
  one of the matches that \<^verbatim>\<open>matchAll\<close> yields.
\<close>

lemma regexExec_first:
  "regexExec ml r s i = Some m \<Longrightarrow> i \<le> j \<Longrightarrow> j < index m \<Longrightarrow> run ml s r (St j Map.empty) = []"
proof (induction ml r s i rule: regexExec.induct)
  case (1 ml r s i)
  show ?case
  proof (cases "run ml s r (St i Map.empty)")
    case Nil
    with "1.prems"(1) have le: "\<not> length s < i" and nx: "regexExec ml r s (Suc i) = Some m"
      by (auto simp: regexExec_Nil split: if_splits)
    show ?thesis
    proof (cases "j = i")
      case True
      with Nil show ?thesis by simp
    next
      case False
      with "1.prems"(2) have "Suc i \<le> j" by simp
      from "1.IH" [OF le Nil nx this "1.prems"(3)] show ?thesis .
    qed
  next
    case (Cons y ys)
    with "1.prems"(1) have "m = mkMatch s i y"
      by (auto simp: regexExec_Cons split: if_splits)
    with "1.prems"(2,3) show ?thesis by (simp add: mkMatch_simps)
  qed
qed

lemma matchAllFrom_covers:
  "consuming r \<Longrightarrow> i \<le> j \<Longrightarrow> j \<le> length s \<Longrightarrow> run ml s r (St j Map.empty) \<noteq> [] \<Longrightarrow>
     \<exists>m \<in> set (matchAllFrom ml r s i). index m \<le> j \<and> j < lastIndex m"
proof (induction ml r s i rule: matchAllFrom.induct)
  case (1 ml r s i)
  note cr = "1.prems"(1) and le = "1.prems"(2) and jl = "1.prems"(3) and rn = "1.prems"(4)
  from le jl rn have "regexExec ml r s i \<noteq> None"
    unfolding regexExec_None by blast
  then obtain m where m: "regexExec ml r s i = Some m" by blast
  have ij: "index m \<le> j"
  proof (rule ccontr)
    assume "\<not> index m \<le> j"
    then have "j < index m" by simp
    from regexExec_first [OF m le this] rn show False by simp
  qed
  from regexExec_consuming [OF cr m] have ne: "matched m \<noteq> []" by simp
  show ?case
  proof (cases "j < lastIndex m")
    case True
    with ij show ?thesis by (auto simp: matchAllFrom_Some [OF m])
  next
    case False
    let ?n = "if matched m = [] then Suc (lastIndex m) else lastIndex m"
    from False ne have "?n \<le> j" by simp
    from "1.IH" [OF m cr this jl rn] show ?thesis
      by (auto simp: matchAllFrom_Some [OF m])
  qed
qed

lemma assignRegex_consuming: "consuming assignRegex"
  by (rule consumes_consuming) (simp add: pattern_defs)

lemma assign_match_line:
  assumes "\<not> assignmentAcrossLines s" "m \<in> set (matchAll True assignRegex s)"
  shows "lineStart s (index m)" "assignmentShape (lineAt s (index m))"
    "matched m = lineAt s (index m)" "lastIndex m = index m + length (lineAt s (index m))"
proof -
  from matchAllFrom_member [OF assms(2) [unfolded matchAll_def]] obtain j y ys where
    j: "j \<le> length s" "run True s assignRegex (St j Map.empty) = y # ys" "m = mkMatch s j y"
    by blast
  note snd = assign_sound [OF assms(1) j(1,2)]
  from snd have 1: "lineStart s j" by (rule conjunct1)
  from snd have 2: "assignmentShape (lineAt s j)" by (rule conjunct2 [THEN conjunct1])
  from snd have 3: "substring s j (pos y) = lineAt s j"
    by (rule conjunct2 [THEN conjunct2, THEN conjunct1])
  from snd have 4: "pos y = j + length (lineAt s j)"
    by (rule conjunct2 [THEN conjunct2, THEN conjunct2])
  from 1 show "lineStart s (index m)" by (simp add: j(3) mkMatch_simps)
  from 2 show "assignmentShape (lineAt s (index m))" by (simp add: j(3) mkMatch_simps)
  from 3 show "matched m = lineAt s (index m)" by (simp only: j(3) mkMatch_simps)
  from 4 show "lastIndex m = index m + length (lineAt s (index m))"
    by (simp only: j(3) mkMatch_simps)
qed

lemma assign_line_match:
  assumes H: "\<not> assignmentAcrossLines s" and ls: "lineStart s p" and sh: "assignmentShape (lineAt s p)"
  shows "\<exists>m \<in> set (matchAll True assignRegex s). index m = p"
proof -
  from ls have p: "p \<le> length s" by (simp add: lineStart_def)
  from matchAllFrom_covers [OF assignRegex_consuming _ p assign_complete [OF ls sh], of 0]
  obtain m where m: "m \<in> set (matchAll True assignRegex s)" "index m \<le> p" "p < lastIndex m"
    by (auto simp: matchAll_def)
  have "index m = p"
  proof (rule ccontr)
    assume "index m \<noteq> p"
    with m(2) have lt: "index m < p" by simp
    let ?k = "p - 1 - index m"
    from lt m(3) assign_match_line(4) [OF H m(1)] have k: "?k < length (lineAt s (index m))"
      by simp
    then have "lineAt s (index m) ! ?k \<in> set (lineAt s (index m))" by (rule nth_mem)
    then have nt: "\<not> isLineTerminator (lineAt s (index m) ! ?k)"
      unfolding lineAt_def by (auto dest: set_takeWhileD)
    from k have "lineAt s (index m) ! ?k = drop (index m) s ! ?k"
      unfolding lineAt_def by (rule takeWhile_nth)
    also from lt p have "\<dots> = s ! (p - 1)" by simp
    finally have "\<not> isLineTerminator (s ! (p - 1))" using nt by simp
    with ls lt show False by (simp add: lineStart_def)
  qed
  with m(1) show ?thesis by blast
qed

lemma flagged_iff:
  assumes "\<not> assignmentAcrossLines code"
  shows "(\<exists>m \<in> set (undeclaredJS code). index m = p) \<longleftrightarrow> flaggedLine code p"
proof
  assume "\<exists>m \<in> set (undeclaredJS code). index m = p"
  then obtain m where m: "m \<in> set (matchAll True assignRegex code)" "\<not> keywordThenSpace (matched m)"
    "index m = p"
    by (auto simp: undeclaredJS_def regexTest_declRegex)
  from assign_match_line [OF assms m(1)] m(2,3) show "flaggedLine code p"
    by (simp add: flaggedLine_def)
next
  assume f: "flaggedLine code p"
  then have "lineStart code p" "assignmentShape (lineAt code p)" by (simp_all add: flaggedLine_def)
  from assign_line_match [OF assms this] obtain m where
    m: "m \<in> set (matchAll True assignRegex code)" "index m = p" by blast
  from assign_match_line(3) [OF assms m(1)] m(2) f have "\<not> keywordThenSpace (matched m)"
    by (simp add: flaggedLine_def)
  with m show "\<exists>m \<in> set (undeclaredJS code). index m = p"
    by (auto simp: undeclaredJS_def regexTest_declRegex)
qed

lemma flagged_text:
  assumes "\<not> assignmentAcrossLines code" "m \<in> set (undeclaredJS code)"
  shows "matched m = lineAt code (index m)"
proof -
  from assms(2) have "m \<in> set (matchAll True assignRegex code)" by (simp add: undeclaredJS_def)
  from assign_match_line(3) [OF assms(1) this] show ?thesis .
qed

lemma declaration_advice_iff:
  "\<exists>ss. suggestions code = Inr ss \<and> (declarationAdvice \<in> set ss \<longleftrightarrow> undeclaredJS code \<noteq> [])"
proof -
  from longFuncs_returns [of code] obtain long where "longFuncs code = Inr long" by blast
  then show ?thesis
    using advice_distinct by (simp add: suggestions_def Let_def)
qed

subsection \<open>The check\<close>

text \<open>
  C6, as the code has it by design. Take a text without an assignment broken across
  lines. Then the check flags a match at position \<open>p\<close> exactly when a line starts at \<open>p\<close>,
  the line has the shape \<^verbatim>\<open>identifier = ...\<close> after leading blanks and tabs, and the line
  holds none of the three keywords with a whitespace code unit right after it; the text of
  every flagged match is that whole line; and the declaration reminder is among the
  advisories exactly when some line is flagged. Lines are those of the \<^verbatim>\<open>m\<close> flag, and
  \<^verbatim>\<open>...\<close> is at least one code unit.
\<close>

theorem undeclared_assignment_check:
  assumes "\<not> assignmentAcrossLines code"
  shows "((\<exists>m \<in> set (undeclaredJS code). index m = p) \<longleftrightarrow> flaggedLine code p)
     \<and> (\<forall>m \<in> set (undeclaredJS code). matched m = lineAt code (index m))
     \<and> (\<exists>ss. suggestions code = Inr ss
          \<and> (declarationAdvice \<in> set ss \<longleftrightarrow> (\<exists>q. flaggedLine code q)))"
proof (intro conjI)
  show "(\<exists>m \<in> set (undeclaredJS code). index m = p) \<longleftrightarrow> flaggedLine code p"
    using assms by (rule flagged_iff)
  show "\<forall>m \<in> set (undeclaredJS code). matched m = lineAt code (index m)"
    using flagged_text [OF assms] by blast
  have "undeclaredJS code \<noteq> [] \<longleftrightarrow> (\<exists>q. flaggedLine code q)"
  proof
    assume "undeclaredJS code \<noteq> []"
    then obtain m where "m \<in> set (undeclaredJS code)" by (cases "undeclaredJS code") auto
    then have "\<exists>m' \<in> set (undeclaredJS code). index m' = index m" by blast
    then have "flaggedLine code (index m)" unfolding flagged_iff [OF assms] .
    then show "\<exists>q. flaggedLine code q" by blast
  next
    assume "\<exists>q. flaggedLine code q"
    then obtain q where "flaggedLine code q" by blast
    then have "\<exists>m \<in> set (undeclaredJS code). index m = q" unfolding flagged_iff [OF assms] .
    then show "undeclaredJS code \<noteq> []" by auto
  qed
  with declaration_advice_iff [of code]
  show "\<exists>ss. suggestions code = Inr ss
          \<and> (declarationAdvice \<in> set ss \<longleftrightarrow> (\<exists>q. flaggedLine code q))"
    by simp
qed

text \<open>
  A text of two lines, both of the shape. The first holds \<^verbatim>\<open>let\<close> and a blank after it and
  is not flagged, the second is flagged, and the reminder is the only advisory.
\<close>

theorem undeclared_assignment_check_witness:
  "\<not> assignmentAcrossLines (str ''y = let z'' @ [10] @ str ''  x = 1'')
   \<and> map index (undeclaredJS (str ''y = let z'' @ [10] @ str ''  x = 1'')) = [10]
   \<and> map matched (undeclaredJS (str ''y = let z'' @ [10] @ str ''  x = 1'')) = [str ''  x = 1'']
   \<and> lineAt (str ''y = let z'' @ [10] @ str ''  x = 1'') 10 = str ''  x = 1''
   \<and> flaggedLine (str ''y = let z'' @ [10] @ str ''  x = 1'') 10
   \<and> lineAt (str ''y = let z'' @ [10] @ str ''  x = 1'') 0 = str ''y = let z''
   \<and> assignmentShape (str ''y = let z'')
   \<and> keywordThenSpace (str ''y = let z'')
   \<and> \<not> flaggedLine (str ''y = let z'' @ [10] @ str ''  x = 1'') 0
   \<and> filter (flaggedLine (str ''y = let z'' @ [10] @ str ''  x = 1'')) [0 ..< 18] = [10]
   \<and> suggestions (str ''y = let z'' @ [10] @ str ''  x = 1'') = Inr [declarationAdvice]"
proof -
  let ?W = "str ''y = let z'' @ [10] @ str ''  x = 1''"
  have h: "\<not> assignmentAcrossLines ?W" by code_simp
  have a: "map index (undeclaredJS ?W) = [10]" by code_simp
  have b: "map matched (undeclaredJS ?W) = [str ''  x = 1'']" by code_simp
  have c: "lineAt ?W 10 = str ''  x = 1''" by code_simp
  have d: "lineAt ?W 0 = str ''y = let z''" by code_simp
  have e: "assignmentShape (str ''y = let z'')" by code_simp
  have k: "keywordThenSpace (str ''y = let z'')" by code_simp
  have l: "filter (flaggedLine ?W) [0 ..< 18] = [10]" by code_simp
  have f: "suggestions ?W = Inr [declarationAdvice]" by code_simp
  have "10 \<in> set (map index (undeclaredJS ?W))" unfolding a by simp
  then have "\<exists>m \<in> set (undeclaredJS ?W). index m = 10" by auto
  with undeclared_assignment_check [OF h, of 10] have g: "flaggedLine ?W 10" by simp
  have "\<not> (\<exists>m \<in> set (undeclaredJS ?W). index m = 0)"
  proof
    assume "\<exists>m \<in> set (undeclaredJS ?W). index m = 0"
    then have "0 \<in> set (map index (undeclaredJS ?W))" by auto
    then show False unfolding a by simp
  qed
  with undeclared_assignment_check [OF h, of 0] have i: "\<not> flaggedLine ?W 0" by simp
  from h a b c g d e k i l f show ?thesis by (intro conjI)
qed

text \<open>
  C6 as the specification states it fails, in three ways. The line \<^verbatim>\<open>x = var\<close> matches the
  assignment pattern and holds the keyword \<^verbatim>\<open>var\<close>, and it is flagged all the same: the
  keyword counts only with whitespace after it. The line \<^verbatim>\<open>x = 1\<close> behind a form feed is an
  assignment after leading whitespace and holds no keyword, and it is not flagged: only
  blanks and tabs are skipped. And in the text of the two lines \<^verbatim>\<open>x\<close> and \<^verbatim>\<open>= 1\<close> neither
  line is an assignment, yet the two lines together are one flagged match, although
  \<^verbatim>\<open>script.js\<close> calls the text of a match \<^verbatim>\<open>line\<close>: there \<^verbatim>\<open>\s*\<close> runs over the line break.
  This text is an assignment broken across lines, and the statement above leaves such
  texts out.
\<close>

theorem undeclared_assignment_counterexample:
  "map matched (matchAll True assignRegex (str ''x = var'')) = [str ''x = var'']
   \<and> containsKeyword (str ''x = var'')
   \<and> map matched (undeclaredJS (str ''x = var'')) = [str ''x = var'']
   \<and> suggestions (str ''x = var'') = Inr [declarationAdvice]
   \<and> lineStart ([12] @ str ''x = 1'') 0
   \<and> lineAt ([12] @ str ''x = 1'') 0 = [12] @ str ''x = 1''
   \<and> isSpace 12
   \<and> assignmentAfterWhitespace ([12] @ str ''x = 1'')
   \<and> \<not> containsKeyword ([12] @ str ''x = 1'')
   \<and> undeclaredJS ([12] @ str ''x = 1'') = []
   \<and> suggestions ([12] @ str ''x = 1'') = Inr [namingAdvice, errorHandlingAdvice]
   \<and> splitLines (str ''x'' @ [10] @ str ''= 1'') = [str ''x'', str ''= 1'']
   \<and> \<not> assignmentAfterWhitespace (str ''x'')
   \<and> \<not> assignmentAfterWhitespace (str ''= 1'')
   \<and> map matched (undeclaredJS (str ''x'' @ [10] @ str ''= 1'')) = [str ''x'' @ [10] @ str ''= 1'']
   \<and> suggestions (str ''x'' @ [10] @ str ''= 1'') = Inr [declarationAdvice]
   \<and> assignmentAcrossLines (str ''x'' @ [10] @ str ''= 1'')"
proof -
  have a: "map matched (matchAll True assignRegex (str ''x = var'')) = [str ''x = var'']"
    by code_simp
  have b: "containsKeyword (str ''x = var'')"
    by code_simp
  have c: "map matched (undeclaredJS (str ''x = var'')) = [str ''x = var'']"
    by code_simp
  have d: "suggestions (str ''x = var'') = Inr [declarationAdvice]"
    by code_simp
  have e: "lineStart ([12] @ str ''x = 1'') 0" by code_simp
  have f: "lineAt ([12] @ str ''x = 1'') 0 = [12] @ str ''x = 1''" by code_simp
  have g: "isSpace 12" by code_simp
  have h: "assignmentAfterWhitespace ([12] @ str ''x = 1'')" by code_simp
  have i: "\<not> containsKeyword ([12] @ str ''x = 1'')" by code_simp
  have j: "undeclaredJS ([12] @ str ''x = 1'') = []" by code_simp
  have k: "suggestions ([12] @ str ''x = 1'') = Inr [namingAdvice, errorHandlingAdvice]"
    by code_simp
  have l: "splitLines (str ''x'' @ [10] @ str ''= 1'') = [str ''x'', str ''= 1'']" by code_simp
  have m: "\<not> assignmentAfterWhitespace (str ''x'')" by code_simp
  have n: "\<not> assignmentAfterWhitespace (str ''= 1'')" by code_simp
  have o: "map matched (undeclaredJS (str ''x'' @ [10] @ str ''= 1''))
      = [str ''x'' @ [10] @ str ''= 1'']"
    by code_simp
  have p: "suggestions (str ''x'' @ [10] @ str ''= 1'') = Inr [declarationAdvice]" by code_simp
  have q: "assignmentAcrossLines (str ''x'' @ [10] @ str ''= 1'')" by code_simp
  from a b c d e f g h i j k l m n o p q show ?thesis by (intro conjI)
qed

section \<open>The lines of a text\<close>

lemma splitLines_nonempty: "splitLines s \<noteq> []"
  by (induction s rule: splitLines.induct) (auto simp: prepend_def split: list.splits)

text \<open>Where \<^verbatim>\<open>/\r?\n/\<close> matches at a position, and where the match ends.\<close>

lemma run_newlineRegex:
  "run ml s newlineRegex (St q cp) =
     (if q < length s \<and> s ! q = 13 \<and> Suc q < length s \<and> s ! Suc q = 10 then [St (Suc (Suc q)) cp]
      else if q < length s \<and> s ! q = 10 then [St (Suc q) cp]
      else [])"
  by (simp add: newlineRegex_def seqs_simps step_def progress_def)

lemma glue_simps:
  "glue w (l # ls) = (w @ l) # ls" "glue [] ls = (if ls = [] then [[]] else ls)"
  "glue w (prepend c ls) = glue (w @ [c]) (if ls = [] then [[]] else ls)"
  by (simp_all add: glue_def prepend_def split: list.splits)

lemma substring_snoc:
  "p \<le> q \<Longrightarrow> q < length s \<Longrightarrow> substring s p (Suc q) = substring s p q @ [s ! q]"
proof -
  assume a: "p \<le> q" "q < length s"
  then have "take (Suc (q - p)) (drop p s) = take (q - p) (drop p s) @ [drop p s ! (q - p)]"
    by (simp add: take_Suc_conv_app_nth)
  with a show ?thesis
    by (simp add: substring_def Suc_diff_le)
qed

lemma splitLines_drop:
  assumes "q < length s"
  shows "splitLines (drop q s) =
     (if s ! q = 10 then [] # splitLines (drop (Suc q) s)
      else if s ! q = 13 \<and> Suc q < length s \<and> s ! Suc q = 10
        then [] # splitLines (drop (Suc (Suc q)) s)
      else prepend (s ! q) (splitLines (drop (Suc q) s)))"
proof -
  from assms have d: "drop q s = s ! q # drop (Suc q) s"
    by (simp add: Cons_nth_drop_Suc)
  show ?thesis
  proof (cases "Suc q < length s")
    case True
    then have "drop (Suc q) s = s ! Suc q # drop (Suc (Suc q)) s"
      by (simp add: Cons_nth_drop_Suc)
    with d show ?thesis by (simp add: True)
  next
    case False
    with assms have "drop (Suc q) s = []" by simp
    with d False show ?thesis by (simp add: prepend_def)
  qed
qed

lemma splitLoop_lines:
  "r = newlineRegex \<Longrightarrow> p \<le> q \<Longrightarrow>
     splitLoop ml r s p q acc = acc @ glue (substring s p q) (splitLines (drop q s))"
proof (induction ml r s p q acc rule: splitLoop.induct)
  case (1 ml r s p q acc)
  note req = \<open>r = newlineRegex\<close>
  note pq = \<open>p \<le> q\<close>
  show ?case
  proof (cases "length s \<le> q")
    case True
    then have "substring s p q = substring s p (length s)"
      by (simp add: substring_def)
    with True show ?thesis
      by (subst splitLoop.simps) (simp add: glue_def)
  next
    case False
    then have q: "q < length s" by simp
    consider (crlf) "s ! q = 13" "Suc q < length s" "s ! Suc q = 10"
      | (lf) "s ! q = 10"
      | (other) "s ! q \<noteq> 10" "\<not> (s ! q = 13 \<and> Suc q < length s \<and> s ! Suc q = 10)"
      by blast
    then show ?thesis
    proof cases
      case crlf
      then have m: "run ml s r (St q Map.empty) = [St (Suc (Suc q)) Map.empty]"
        using q by (simp add: req run_newlineRegex)
      from pq have ne: "pos (St (Suc (Suc q)) Map.empty) \<noteq> p" by simp
      from "1.IH"(3) [OF False m ne req] have
        "splitLoop ml r s (Suc (Suc q)) (Suc (Suc q)) (acc @ [substring s p q])
           = (acc @ [substring s p q]) @ glue (substring s (Suc (Suc q)) (Suc (Suc q)))
               (splitLines (drop (Suc (Suc q)) s))"
        by simp
      moreover have "substring s (Suc (Suc q)) (Suc (Suc q)) = []"
        by (simp add: substring_def)
      ultimately show ?thesis
        using q crlf m ne splitLines_nonempty [of "drop (Suc (Suc q)) s"]
        by (subst splitLoop.simps) (simp add: splitLines_drop glue_simps)
    next
      case lf
      then have m: "run ml s r (St q Map.empty) = [St (Suc q) Map.empty]"
        using q by (simp add: req run_newlineRegex)
      from pq have ne: "pos (St (Suc q) Map.empty) \<noteq> p" by simp
      from "1.IH"(3) [OF False m ne req] have
        "splitLoop ml r s (Suc q) (Suc q) (acc @ [substring s p q])
           = (acc @ [substring s p q]) @ glue (substring s (Suc q) (Suc q))
               (splitLines (drop (Suc q) s))"
        by simp
      moreover have "substring s (Suc q) (Suc q) = []"
        by (simp add: substring_def)
      ultimately show ?thesis
        using q lf m ne splitLines_nonempty [of "drop (Suc q) s"]
        by (subst splitLoop.simps) (simp add: splitLines_drop glue_simps)
    next
      case other
      then have m: "run ml s r (St q Map.empty) = []"
        using q by (auto simp: req run_newlineRegex)
      from "1.IH"(1) [OF False m req] pq have
        "splitLoop ml r s p (Suc q) acc
           = acc @ glue (substring s p (Suc q)) (splitLines (drop (Suc q) s))"
        by simp
      then show ?thesis
        using q other m pq splitLines_nonempty [of "drop (Suc q) s"]
        by (subst splitLoop.simps) (auto simp: splitLines_drop glue_simps substring_snoc)
    qed
  qed
qed

lemma jsSplit_newline: "jsSplit ml newlineRegex s = splitLines s"
proof (cases "s = []")
  case True
  then show ?thesis by (simp add: jsSplit_def run_newlineRegex)
next
  case False
  have "substring s 0 0 = []" by (simp add: substring_def)
  with False splitLoop_lines [of newlineRegex 0 0 ml s "[]"] splitLines_nonempty [of s] show ?thesis
    by (simp add: jsSplit_def glue_simps)
qed

section \<open>The explanation of a text without functions\<close>

text \<open>
  C10. When the extraction finds no signature, the explanation is the generic message,
  and the number in it is the number of lines of the text that are not blank.
\<close>

theorem generic_explanation_counts_lines:
  assumes "explFunctions code = Some (Inr [])"
  shows "generateExplanation code =
     Some (Inr (str ''O c'' @ [243] @ str ''digo possui ''
        @ showNat (length (filter (\<lambda>l. trim l \<noteq> []) (splitLines code)))
        @ str '' linha(s). Considere adicionar fun'' @ [231, 245] @ str ''es'' @ [10]
        @ str ''para organizar melhor a l'' @ [243] @ str ''gica e facilitar a manuten''
        @ [231, 227] @ str ''o.''))"
  using assms
  by (simp add: generateExplanation_def thenDo_def explain_def jsSplit_newline)

theorem generic_explanation_counts_lines_witness:
  "explFunctions (str ''x = 1'' @ [13, 10, 10] @ str ''y = 2'') = Some (Inr [])
   \<and> length (filter (\<lambda>l. trim l \<noteq> []) (splitLines (str ''x = 1'' @ [13, 10, 10] @ str ''y = 2''))) = 2
   \<and> generateExplanation (str ''x = 1'' @ [13, 10, 10] @ str ''y = 2'') =
     Some (Inr (str ''O c'' @ [243] @ str ''digo possui 2''
        @ str '' linha(s). Considere adicionar fun'' @ [231, 245] @ str ''es'' @ [10]
        @ str ''para organizar melhor a l'' @ [243] @ str ''gica e facilitar a manuten''
        @ [231, 227] @ str ''o.''))"
proof -
  have a: "explFunctions (str ''x = 1'' @ [13, 10, 10] @ str ''y = 2'') = Some (Inr [])"
    by code_simp
  have b: "length (filter (\<lambda>l. trim l \<noteq> [])
      (splitLines (str ''x = 1'' @ [13, 10, 10] @ str ''y = 2''))) = 2"
    by code_simp
  have c: "showNat 2 = str ''2''"
    by code_simp
  from generic_explanation_counts_lines [OF a] a b c show ?thesis
    by (simp add: str_def)
qed

section \<open>A worked input\<close>

text \<open>
  C8. For \<^verbatim>\<open>def foo(x):\<close>, a line feed and \<^verbatim>\<open>    pass\<close>, the extraction finds one
  function, of Python, named \<open>foo\<close> with the parameter text \<open>x\<close>; the explanation reports
  it, and the documentation has the header of \<open>foo()\<close> and one parameter bullet, \<open>x\<close>.
  Every text is written out code unit by code unit; the documentation ends with the line
  feed before its last, empty line.
\<close>

theorem example_def_foo:
  "explFunctions (str ''def foo(x):'' @ [10] @ str ''    pass'')
     = Some (Inr [\<lparr>name = Some (str ''foo''), params = str ''x'', language = Python\<rparr>])
   \<and> generateExplanation (str ''def foo(x):'' @ [10] @ str ''    pass'')
     = Some (Inr (str ''Foram identificada(s) 1 fun'' @ [231, 227] @ str ''o('' @ [245]
          @ str ''es): Python: fun'' @ [231, 227] @ str ''o foo(x).''))
   \<and> generateDocumentation (str ''def foo(x):'' @ [10] @ str ''    pass'')
     = Some (Inr (
          str ''### Fun'' @ [231, 227] @ str ''o '' @ [96] @ str ''foo()'' @ [96] @ [10]
          @ str ''**Descri'' @ [231, 227] @ str ''o:** descreva aqui o que a fun'' @ [231, 227]
            @ str ''o faz.'' @ [10]
          @ str ''**Par'' @ [226] @ str ''metros:**'' @ [10]
          @ str ''- '' @ [96] @ str ''x'' @ [96] @ str '': descri'' @ [231, 227]
            @ str ''o do par'' @ [226] @ str ''metro.'' @ [10]
          @ str ''**Retorno:** descreva aqui o valor retornado pela fun'' @ [231, 227]
            @ str ''o.'' @ [10]))"
proof -
  have a: "explFunctions (str ''def foo(x):'' @ [10] @ str ''    pass'')
     = Some (Inr [\<lparr>name = Some (str ''foo''), params = str ''x'', language = Python\<rparr>])"
    by code_simp
  have b: "generateExplanation (str ''def foo(x):'' @ [10] @ str ''    pass'')
     = Some (Inr (str ''Foram identificada(s) 1 fun'' @ [231, 227] @ str ''o('' @ [245]
          @ str ''es): Python: fun'' @ [231, 227] @ str ''o foo(x).''))"
    by code_simp
  have c: "generateDocumentation (str ''def foo(x):'' @ [10] @ str ''    pass'')
     = Some (Inr (
          str ''### Fun'' @ [231, 227] @ str ''o '' @ [96] @ str ''foo()'' @ [96] @ [10]
          @ str ''**Descri'' @ [231, 227] @ str ''o:** descreva aqui o que a fun'' @ [231, 227]
            @ str ''o faz.'' @ [10]
          @ str ''**Par'' @ [226] @ str ''metros:**'' @ [10]
          @ str ''- '' @ [96] @ str ''x'' @ [96] @ str '': descri'' @ [231, 227]
            @ str ''o do par'' @ [226] @ str ''metro.'' @ [10]
          @ str ''**Retorno:** descreva aqui o valor retornado pela fun'' @ [231, 227]
            @ str ''o.'' @ [10]))"
    by code_simp
  from a b c show ?thesis by (intro conjI)
qed

section \<open>The documentation stub\<close>

text \<open>
  C9. For a signature whose parameter text is \<^verbatim>\<open>a, b\<close> the stub has two parameter
  bullets, \<open>a\<close> and then \<open>b\<close>, between the parameter heading and the return line. The
  seven lines are written out code unit by code unit; the name is shown as it is, and as
  \<^verbatim>\<open>undefined\<close> when there is none.
\<close>

theorem stub_for_two_parameters:
  assumes "params fn = str ''a, b''"
  shows "docStub fn =
     [str ''### Fun'' @ [231, 227] @ str ''o '' @ [96]
        @ (case name fn of None \<Rightarrow> str ''undefined'' | Some n \<Rightarrow> n) @ str ''()'' @ [96],
      str ''**Descri'' @ [231, 227] @ str ''o:** descreva aqui o que a fun'' @ [231, 227]
        @ str ''o faz.'',
      str ''**Par'' @ [226] @ str ''metros:**'',
      str ''- '' @ [96] @ str ''a'' @ [96] @ str '': descri'' @ [231, 227] @ str ''o do par''
        @ [226] @ str ''metro.'',
      str ''- '' @ [96] @ str ''b'' @ [96] @ str '': descri'' @ [231, 227] @ str ''o do par''
        @ [226] @ str ''metro.'',
      str ''**Retorno:** descreva aqui o valor retornado pela fun'' @ [231, 227] @ str ''o.'',
      []]"
proof -
  have "map trim (splitOn 44 (str ''a, b'')) = [str ''a'', str ''b'']"
    by code_simp
  moreover have "str ''a, b'' \<noteq> []"
    by (simp add: str_def)
  ultimately show ?thesis
    using assms by (simp add: docStub_def paramBullet_def toText_def)
qed

theorem stub_for_two_parameters_witness:
  "docFunctions (str ''function add(a, b) {}'')
     = Some (Inr [\<lparr>name = Some (str ''add''), params = str ''a, b''\<rparr>])
   \<and> docStub \<lparr>name = Some (str ''add''), params = str ''a, b''\<rparr> =
     [str ''### Fun'' @ [231, 227] @ str ''o '' @ [96] @ str ''add()'' @ [96],
      str ''**Descri'' @ [231, 227] @ str ''o:** descreva aqui o que a fun'' @ [231, 227]
        @ str ''o faz.'',
      str ''**Par'' @ [226] @ str ''metros:**'',
      str ''- '' @ [96] @ str ''a'' @ [96] @ str '': descri'' @ [231, 227] @ str ''o do par''
        @ [226] @ str ''metro.'',
      str ''- '' @ [96] @ str ''b'' @ [96] @ str '': descri'' @ [231, 227] @ str ''o do par''
        @ [226] @ str ''metro.'',
      str ''**Retorno:** descreva aqui o valor retornado pela fun'' @ [231, 227] @ str ''o.'',
      []]
   \<and> generateDocumentation (str ''function add(a, b) {}'')
     = Some (Inr (
          str ''### Fun'' @ [231, 227] @ str ''o '' @ [96] @ str ''add()'' @ [96] @ [10]
          @ str ''**Descri'' @ [231, 227] @ str ''o:** descreva aqui o que a fun'' @ [231, 227]
            @ str ''o faz.'' @ [10]
          @ str ''**Par'' @ [226] @ str ''metros:**'' @ [10]
          @ str ''- '' @ [96] @ str ''a'' @ [96] @ str '': descri'' @ [231, 227]
            @ str ''o do par'' @ [226] @ str ''metro.'' @ [10]
          @ str ''- '' @ [96] @ str ''b'' @ [96] @ str '': descri'' @ [231, 227]
            @ str ''o do par'' @ [226] @ str ''metro.'' @ [10]
          @ str ''**Retorno:** descreva aqui o valor retornado pela fun'' @ [231, 227]
            @ str ''o.'' @ [10]))"
proof -
  have a: "docFunctions (str ''function add(a, b) {}'')
     = Some (Inr [\<lparr>name = Some (str ''add''), params = str ''a, b''\<rparr>])"
    by code_simp
  have b: "params \<lparr>name = Some (str ''add''), params = str ''a, b''\<rparr> = str ''a, b''"
    by simp
  have d: "generateDocumentation (str ''function add(a, b) {}'')
     = Some (Inr (
          str ''### Fun'' @ [231, 227] @ str ''o '' @ [96] @ str ''add()'' @ [96] @ [10]
          @ str ''**Descri'' @ [231, 227] @ str ''o:** descreva aqui o que a fun'' @ [231, 227]
            @ str ''o faz.'' @ [10]
          @ str ''**Par'' @ [226] @ str ''metros:**'' @ [10]
          @ str ''- '' @ [96] @ str ''a'' @ [96] @ str '': descri'' @ [231, 227]
            @ str ''o do par'' @ [226] @ str ''metro.'' @ [10]
          @ str ''- '' @ [96] @ str ''b'' @ [96] @ str '': descri'' @ [231, 227]
            @ str ''o do par'' @ [226] @ str ''metro.'' @ [10]
          @ str ''**Retorno:** descreva aqui o valor retornado pela fun'' @ [231, 227]
            @ str ''o.'' @ [10]))"
    by code_simp
  from stub_for_two_parameters [OF b] have e:
    "docStub \<lparr>name = Some (str ''add''), params = str ''a, b''\<rparr> =
     [str ''### Fun'' @ [231, 227] @ str ''o '' @ [96] @ str ''add()'' @ [96],
      str ''**Descri'' @ [231, 227] @ str ''o:** descreva aqui o que a fun'' @ [231, 227]
        @ str ''o faz.'',
      str ''**Par'' @ [226] @ str ''metros:**'',
      str ''- '' @ [96] @ str ''a'' @ [96] @ str '': descri'' @ [231, 227] @ str ''o do par''
        @ [226] @ str ''metro.'',
      str ''- '' @ [96] @ str ''b'' @ [96] @ str '': descri'' @ [231, 227] @ str ''o do par''
        @ [226] @ str ''metro.'',
      str ''**Retorno:** descreva aqui o valor retornado pela fun'' @ [231, 227] @ str ''o.'',
      []]"
    by (simp add: str_def)
  from a e d show ?thesis
    by (intro conjI)
qed

section \<open>Where the code departs from its specification\<close>

text \<open>
  C4: the code does not do what the claim says. A Python function whose first line is a
  docstring, indented as usual, still gets the docstring reminder: the matcher gives back
  the last blank of the indentation, and there the text does not start with three quotes.
\<close>

theorem docstring_reminder_with_docstring:
  "suggestions (str ''def f():'' @ [10] @ str ''    '' @ [34, 34, 34] @ str ''doc''
     @ [34, 34, 34] @ [10] @ str ''    return 1'') = Inr [docstringAdvice]"
  by code_simp

text \<open>
  C7: the code does not do what the claim says. A function of 21 lines at the end of a
  text that does not end in a line feed is not captured, so the decomposition reminder is
  missing; with a final line feed it is there.
\<close>

theorem long_function_without_final_newline:
  "suggestions (str ''def f():'' @ concat (replicate 21 ([10] @ str '' a'')))
     = Inr [docstringAdvice]
   \<and> suggestions (str ''def f():'' @ concat (replicate 21 ([10] @ str '' a'')) @ [10])
     = Inr [docstringAdvice, longFunctionAdvice]"
proof -
  have a: "suggestions (str ''def f():'' @ concat (replicate 21 ([10] @ str '' a'')))
     = Inr [docstringAdvice]"
    by code_simp
  have b: "suggestions (str ''def f():'' @ concat (replicate 21 ([10] @ str '' a'')) @ [10])
     = Inr [docstringAdvice, longFunctionAdvice]"
    by code_simp
  from a b show ?thesis by (intro conjI)
qed

end
